theory Spec2Isabelle
  imports Complex_Main
begin

section \<open>JavaScript numbers\<close>

text \<open>
  The generator in \<^verbatim>\<open>src/src/data.jsx\<close> computes with JavaScript numbers. A number is
  modelled as a finite value or one of the three non-finite values that the unguarded
  division of \<^verbatim>\<open>normalizeValuesForMonth\<close> can produce. Finite arithmetic is exact
  (rationals): the binary rounding of finite doubles and the sign of zero are outside the
  model. Every divisor of the program is a \<^verbatim>\<open>reduce\<close> started at \<^verbatim>\<open>0\<close>, which is never
  the negative zero, so a division by zero has the sign of its numerator.
\<close>

datatype jsnum = Num rat | PosInf | NegInf | NaN

definition inf_of_sign :: "rat \<Rightarrow> jsnum" where
  "inf_of_sign s = (if 0 < s then PosInf else if s < 0 then NegInf else NaN)"

fun js_neg :: "jsnum \<Rightarrow> jsnum" where
  "js_neg (Num a) = Num (- a)"
| "js_neg PosInf = NegInf"
| "js_neg NegInf = PosInf"
| "js_neg NaN = NaN"

fun js_add :: "jsnum \<Rightarrow> jsnum \<Rightarrow> jsnum" where
  "js_add (Num a) (Num b) = Num (a + b)"
| "js_add NaN y = NaN"
| "js_add x NaN = NaN"
| "js_add PosInf NegInf = NaN"
| "js_add NegInf PosInf = NaN"
| "js_add PosInf y = PosInf"
| "js_add NegInf y = NegInf"
| "js_add (Num a) y = y"

definition js_sub :: "jsnum \<Rightarrow> jsnum \<Rightarrow> jsnum" where
  "js_sub x y = js_add x (js_neg y)"

fun js_mul :: "jsnum \<Rightarrow> jsnum \<Rightarrow> jsnum" where
  "js_mul (Num a) (Num b) = Num (a * b)"
| "js_mul NaN y = NaN"
| "js_mul x NaN = NaN"
| "js_mul (Num a) PosInf = inf_of_sign a"
| "js_mul (Num a) NegInf = inf_of_sign (- a)"
| "js_mul PosInf (Num b) = inf_of_sign b"
| "js_mul NegInf (Num b) = inf_of_sign (- b)"
| "js_mul PosInf PosInf = PosInf"
| "js_mul NegInf NegInf = PosInf"
| "js_mul PosInf NegInf = NegInf"
| "js_mul NegInf PosInf = NegInf"

fun js_div :: "jsnum \<Rightarrow> jsnum \<Rightarrow> jsnum" where
  "js_div (Num a) (Num b) = (if b = 0 then inf_of_sign a else Num (a / b))"
| "js_div NaN y = NaN"
| "js_div x NaN = NaN"
| "js_div (Num a) y = Num 0"
| "js_div PosInf (Num b) = (if 0 \<le> b then PosInf else NegInf)"
| "js_div NegInf (Num b) = (if 0 \<le> b then NegInf else PosInf)"
| "js_div x y = NaN"

text \<open>\<^verbatim>\<open>Math.round\<close>: the nearest integer, a tie going up; non-finite values are returned.\<close>

definition rounded :: "rat \<Rightarrow> rat" where
  "rounded a = of_int \<lfloor>a + 1 / 2\<rfloor>"

fun js_round :: "jsnum \<Rightarrow> jsnum" where
  "js_round (Num a) = Num (rounded a)"
| "js_round x = x"

text \<open>The operator \<^verbatim>\<open>!==\<close> on numbers: \<^verbatim>\<open>NaN\<close> differs from every number, itself included.\<close>

fun js_strict_neq :: "jsnum \<Rightarrow> jsnum \<Rightarrow> bool" where
  "js_strict_neq NaN y = True"
| "js_strict_neq x NaN = True"
| "js_strict_neq x y = (x \<noteq> y)"

definition is_finite :: "jsnum \<Rightarrow> bool" where
  "is_finite x = (case x of Num a \<Rightarrow> True | _ \<Rightarrow> False)"

section \<open>Entries and configuration\<close>

text \<open>
  An entry is \<^verbatim>\<open>{path, values}\<close>; \<^verbatim>\<open>values\<close> holds the objects \<^verbatim>\<open>plan\<close> and
  \<^verbatim>\<open>forecast\<close>, and \<^verbatim>\<open>rel\<close> when it was requested. Each maps a month key to a number.
  Month keys are ordinary property names (the key \<^verbatim>\<open>__proto__\<close>, which an object
  literal does not store, is outside the model).
\<close>

type_synonym month = string

record values_t =
  plan :: "month \<rightharpoonup> jsnum"
  forecast :: "month \<rightharpoonup> jsnum"
  rel :: "(month \<rightharpoonup> jsnum) option"

record entry =
  path :: "string list"
  vals :: values_t

record valueRanges_t =
  rmin :: rat
  rmax :: rat

record config =
  levelValues :: "string list list"
  sumConstraint :: rat
  months :: "month list"
  valueRanges :: valueRanges_t
  includeRel :: bool


text \<open>
  The program throws \<^verbatim>\<open>new Error(message)\<close> when validation fails; the runtime throws a
  \<^verbatim>\<open>TypeError\<close> when a property of \<^verbatim>\<open>undefined\<close> is read or a value that is not a
  function is called.
\<close>

datatype error = Error string | TypeError

text \<open>The second argument of \<^verbatim>\<open>normalizeValuesForMonth\<close> is \<^verbatim>\<open>"plan"\<close> or \<^verbatim>\<open>"forecast"\<close>.\<close>

datatype valueType = Plan | Forecast

fun series :: "values_t \<Rightarrow> valueType \<Rightarrow> (month \<rightharpoonup> jsnum)" where
  "series v Plan = plan v"
| "series v Forecast = forecast v"

text \<open>
  Reading \<^verbatim>\<open>child.values[valueType][month]\<close>: a missing key reads \<^verbatim>\<open>undefined\<close>, which
  every arithmetic operator of the program turns into \<^verbatim>\<open>NaN\<close>.
\<close>

definition get_value :: "entry \<Rightarrow> valueType \<Rightarrow> month \<Rightarrow> jsnum" where
  "get_value e vt m = (case series (vals e) vt m of None \<Rightarrow> NaN | Some x \<Rightarrow> x)"

fun set_value :: "entry \<Rightarrow> valueType \<Rightarrow> month \<Rightarrow> jsnum \<Rightarrow> entry" where
  "set_value e Plan m x = e\<lparr>vals := (vals e)\<lparr>plan := (plan (vals e))(m \<mapsto> x)\<rparr>\<rparr>"
| "set_value e Forecast m x = e\<lparr>vals := (vals e)\<lparr>forecast := (forecast (vals e))(m \<mapsto> x)\<rparr>\<rparr>"

section \<open>The value sampler\<close>

text \<open>
  \<^verbatim>\<open>Math.random()\<close> is the process-wide source: the model reads draw number \<open>n\<close> of a
  stream \<open>rnd\<close> and passes the number of draws made so far. One month of the loop of
  \<^verbatim>\<open>generateValues\<close> makes two draws, and a third when \<^verbatim>\<open>rel\<close> is requested.
\<close>

definition generateValues_month ::
  "(nat \<Rightarrow> rat) \<Rightarrow> valueRanges_t \<Rightarrow> bool \<Rightarrow> month \<Rightarrow> values_t \<times> nat \<Rightarrow> values_t \<times> nat" where
  "generateValues_month rnd ranges inclRel m st =
     (let v = fst st; n = snd st;
          baseValue = of_int \<lfloor>rnd n * (rmax ranges - rmin ranges + 1)\<rfloor> + rmin ranges;
          v1 = v\<lparr>plan := (plan v)(m \<mapsto> Num baseValue)\<rparr>;
          variation = rnd (n + 1) * (1 / 10) - 1 / 20;
          v2 = v1\<lparr>forecast := (forecast v1)(m \<mapsto> js_round (Num (baseValue * (1 + variation))))\<rparr>
      in if inclRel
         then (v2\<lparr>rel := map_option (\<lambda>r. r(m \<mapsto> Num (of_int \<lfloor>rnd (n + 2) * 30\<rfloor> + 1))) (rel v2)\<rparr>,
               n + 3)
         else (v2, n + 2))"

definition generateValues ::
  "(nat \<Rightarrow> rat) \<Rightarrow> month list \<Rightarrow> valueRanges_t \<Rightarrow> bool \<Rightarrow> nat \<Rightarrow> values_t \<times> nat" where
  "generateValues rnd ms ranges inclRel n =
     fold (generateValues_month rnd ranges inclRel) ms
       (\<lparr>plan = Map.empty, forecast = Map.empty,
         rel = (if inclRel then Some Map.empty else None)\<rparr>, n)"

section \<open>The path enumerator\<close>

text \<open>\<^verbatim>\<open>result.push({path, values: generateValues(...)})\<close> on the pair of the result array
  and the draw counter.\<close>

definition pushEntry ::
  "(nat \<Rightarrow> rat) \<Rightarrow> month list \<Rightarrow> valueRanges_t \<Rightarrow> bool \<Rightarrow> string list \<Rightarrow>
   entry list \<times> nat \<Rightarrow> entry list \<times> nat" where
  "pushEntry rnd ms ranges inclRel p st =
     (fst st @ [\<lparr>path = p, vals = fst (generateValues rnd ms ranges inclRel (snd st))\<rparr>],
      snd (generateValues rnd ms ranges inclRel (snd st)))"

function generatePaths ::
  "(nat \<Rightarrow> rat) \<Rightarrow> string list list \<Rightarrow> month list \<Rightarrow> valueRanges_t \<Rightarrow> bool \<Rightarrow>
   string list \<Rightarrow> nat \<Rightarrow> entry list \<times> nat \<Rightarrow> entry list \<times> nat" where
  "generatePaths rnd lv ms ranges inclRel currentPath levelIndex st =
     (if length lv \<le> levelIndex then st
      else fold (\<lambda>v s. generatePaths rnd lv ms ranges inclRel (currentPath @ [v]) (levelIndex + 1)
                          (pushEntry rnd ms ranges inclRel (currentPath @ [v]) s))
             (lv ! levelIndex) st)"
  by pat_completeness auto
termination
  by (relation "measure (\<lambda>(rnd, lv, ms, ranges, inclRel, currentPath, levelIndex, st).
                           length lv - levelIndex)") auto

declare generatePaths.simps [simp del]

text \<open>
  \<^verbatim>\<open>generateEntriesForAllLevels\<close>: first one entry for each label of the first level, then
  the recursive walk below each of them. \<^verbatim>\<open>levelValues[0]\<close> of an empty array is
  \<^verbatim>\<open>undefined\<close>, and iterating it throws.
\<close>

definition generateEntriesForAllLevels ::
  "(nat \<Rightarrow> rat) \<Rightarrow> string list list \<Rightarrow> month list \<Rightarrow> valueRanges_t \<Rightarrow> bool \<Rightarrow>
   entry list \<times> nat \<Rightarrow> error + entry list \<times> nat" where
  "generateEntriesForAllLevels rnd lv ms ranges inclRel st =
     (case lv of
        [] \<Rightarrow> Inl TypeError
      | l0 # _ \<Rightarrow>
          Inr (fold (\<lambda>v s. generatePaths rnd lv ms ranges inclRel [v] 1 s) l0
                 (fold (\<lambda>v s. pushEntry rnd ms ranges inclRel [v] s) l0 st)))"

section \<open>The level normalizer\<close>

text \<open>
  The entries are objects shared by the result array, by \<^verbatim>\<open>entriesAtLevel\<close> and by the
  groups: the model keeps the result array as the store and refers to an entry by its
  index there. The loops of \<^verbatim>\<open>normalizeValuesForMonth\<close> read and write the store through
  these indices, in the order of \<^verbatim>\<open>children\<close>.
\<close>

definition sumValues :: "entry list \<Rightarrow> nat list \<Rightarrow> month \<Rightarrow> valueType \<Rightarrow> jsnum" where
  "sumValues data children m vt =
     foldl (\<lambda>sum c. js_add sum (get_value (data ! c) vt m)) (Num 0) children"

definition scaleValues :: "entry list \<Rightarrow> nat list \<Rightarrow> month \<Rightarrow> valueType \<Rightarrow> jsnum \<Rightarrow> entry list" where
  "scaleValues data children m vt scaleFactor =
     foldl (\<lambda>d c. d[c := set_value (d ! c) vt m (js_round (js_mul (get_value (d ! c) vt m) scaleFactor))])
       data children"

text \<open>
  \<^verbatim>\<open>children[children.length - 1]\<close> of an empty array is \<^verbatim>\<open>undefined\<close>, and reading its
  \<^verbatim>\<open>values\<close> throws.
\<close>

definition normalizeValuesForMonth ::
  "entry list \<Rightarrow> nat list \<Rightarrow> month \<Rightarrow> valueType \<Rightarrow> rat \<Rightarrow> error + entry list" where
  "normalizeValuesForMonth data children m vt sumC =
     (let currentSum = sumValues data children m vt;
          scaleFactor = js_div (Num sumC) currentSum;
          data1 = scaleValues data children m vt scaleFactor;
          adjustedSum = sumValues data1 children m vt
      in if js_strict_neq adjustedSum (Num sumC)
         then (if children = [] then Inl TypeError
               else Inr (data1[last children :=
                           set_value (data1 ! last children) vt m
                             (js_add (get_value (data1 ! last children) vt m)
                                (js_sub (Num sumC) adjustedSum))]))
         else Inr data1)"

text \<open>A loop whose body may throw: the first error ends it.\<close>

fun foldE :: "('a \<Rightarrow> 's \<Rightarrow> error + 's) \<Rightarrow> 'a list \<Rightarrow> 's \<Rightarrow> error + 's" where
  "foldE f [] s = Inr s"
| "foldE f (x # xs) s = (case f x s of Inl e \<Rightarrow> Inl e | Inr s' \<Rightarrow> foldE f xs s')"

text \<open>\<^verbatim>\<open>Array.prototype.join\<close> and \<^verbatim>\<open>path.slice(0, -1).join("|")\<close>.\<close>

fun join :: "string \<Rightarrow> string list \<Rightarrow> string" where
  "join sep [] = []"
| "join sep [x] = x"
| "join sep (x # y # ys) = x @ sep @ join sep (y # ys)"

definition parentPath :: "entry \<Rightarrow> string" where
  "parentPath e = join ''|'' (butlast (path e))"

text \<open>
  \<^verbatim>\<open>groupedEntries\<close> is an object literal, so a lookup of a key it does not own finds the
  properties of \<^verbatim>\<open>Object.prototype\<close>. Each of them is a function or an object: the test
  \<^verbatim>\<open>!groupedEntries[parentPath]\<close> is false without an array having been stored, and the
  call of \<^verbatim>\<open>push\<close> throws a \<^verbatim>\<open>TypeError\<close>. These are the property names of
  \<^verbatim>\<open>Object.prototype\<close> in the ECMAScript standard and its annex B.
\<close>

definition object_prototype_keys :: "string list" where
  "object_prototype_keys =
     [''constructor'', ''hasOwnProperty'', ''isPrototypeOf'', ''propertyIsEnumerable'',
      ''toLocaleString'', ''toString'', ''valueOf'', ''__defineGetter__'',
      ''__defineSetter__'', ''__lookupGetter__'', ''__lookupSetter__'', ''__proto__'']"

text \<open>
  One step of the grouping loop. The groups are kept in the order in which their keys were
  first stored. (\<^verbatim>\<open>for ... in\<close> visits keys that are array indices first; the groups
  hold disjoint sets of entries, so the order of the visit does not show in the result.)
\<close>

fun addToGroup :: "string \<Rightarrow> nat \<Rightarrow> (string \<times> nat list) list \<Rightarrow> (string \<times> nat list) list" where
  "addToGroup k i [] = [(k, [i])]"
| "addToGroup k i ((k', c) # gs) =
     (if k' = k then (k', c @ [i]) # gs else (k', c) # addToGroup k i gs)"

definition groupStep ::
  "entry list \<Rightarrow> nat \<Rightarrow> (string \<times> nat list) list \<Rightarrow> error + (string \<times> nat list) list" where
  "groupStep data i gs =
     (let k = parentPath (data ! i)
      in if k \<in> set object_prototype_keys \<and> k \<notin> set (map fst gs) then Inl TypeError
         else Inr (addToGroup k i gs))"

definition entriesAtLevel :: "entry list \<Rightarrow> nat \<Rightarrow> nat list" where
  "entriesAtLevel data level = filter (\<lambda>i. length (path (data ! i)) = level) [0..<length data]"

definition groupEntries :: "entry list \<Rightarrow> nat \<Rightarrow> error + (string \<times> nat list) list" where
  "groupEntries data level =
     (if level = 1 then Inr [(''root'', entriesAtLevel data level)]
      else foldE (groupStep data) (entriesAtLevel data level) [])"

definition normalizeMonth :: "nat list \<Rightarrow> rat \<Rightarrow> month \<Rightarrow> entry list \<Rightarrow> error + entry list" where
  "normalizeMonth children sumC m data =
     (case normalizeValuesForMonth data children m Plan sumC of
        Inl e \<Rightarrow> Inl e
      | Inr data1 \<Rightarrow> normalizeValuesForMonth data1 children m Forecast sumC)"

definition normalizeGroup :: "month list \<Rightarrow> rat \<Rightarrow> string \<times> nat list \<Rightarrow> entry list \<Rightarrow> error + entry list" where
  "normalizeGroup ms sumC g data = foldE (normalizeMonth (snd g) sumC) ms data"

definition normalizeLevel :: "month list \<Rightarrow> rat \<Rightarrow> nat \<Rightarrow> entry list \<Rightarrow> error + entry list" where
  "normalizeLevel ms sumC level data =
     (case groupEntries data level of
        Inl e \<Rightarrow> Inl e
      | Inr groupedEntries \<Rightarrow> foldE (normalizeGroup ms sumC) groupedEntries data)"

definition normalizeAllLevelValues ::
  "entry list \<Rightarrow> string list list \<Rightarrow> month list \<Rightarrow> rat \<Rightarrow> error + entry list" where
  "normalizeAllLevelValues data lv ms sumC =
     foldE (normalizeLevel ms sumC) [1..<Suc (length lv)] data"

section \<open>The dataset builder\<close>

text \<open>
  \<^verbatim>\<open>generateTreeData\<close> returns the thrown error or the result array, and the number of
  draws of \<^verbatim>\<open>Math.random()\<close> made when it ends.
\<close>

definition generateTreeData :: "(nat \<Rightarrow> rat) \<Rightarrow> config \<Rightarrow> nat \<Rightarrow> (error + entry list) \<times> nat" where
  "generateTreeData rnd cfg n =
     (if levelValues cfg = [] then (Inl (Error ''levelValues must be a non-empty array of arrays''), n)
      else if \<exists>level \<in> set (levelValues cfg). level = []
      then (Inl (Error ''Each level must be a non-empty array of values''), n)
      else (case generateEntriesForAllLevels rnd (levelValues cfg) (months cfg) (valueRanges cfg)
                   (includeRel cfg) ([], n) of
              Inl e \<Rightarrow> (Inl e, n)
            | Inr st \<Rightarrow>
                (normalizeAllLevelValues (fst st) (levelValues cfg) (months cfg) (sumConstraint cfg),
                 snd st)))"

section \<open>Definitions used in the statements\<close>

fun num_of :: "jsnum \<Rightarrow> rat" where
  "num_of (Num a) = a"
| "num_of x = 0"


text \<open>The value a member of a group holds after a normalization with a finite, nonzero sum.\<close>

definition normalized_value :: "entry list \<Rightarrow> nat list \<Rightarrow> month \<Rightarrow> valueType \<Rightarrow> rat \<Rightarrow> nat \<Rightarrow> rat" where
  "normalized_value data cs m vt sumC c =
     (let s = num_of (sumValues data cs m vt);
          r = (\<lambda>i. rounded (num_of (get_value (data ! i) vt m) * (sumC / s)))
      in r c + (if c = last cs then sumC - sum_list (map r cs) else 0))"

text \<open>The paths pushed by the walk below a node, in the order of the push.\<close>

fun below :: "string list list \<Rightarrow> string list \<Rightarrow> string list list" where
  "below [] cur = []"
| "below (l # ls) cur = concat (map (\<lambda>v. (cur @ [v]) # below ls (cur @ [v])) l)"

definition all_paths :: "string list list \<Rightarrow> string list list" where
  "all_paths lv = (case lv of [] \<Rightarrow> [] | l0 # ls \<Rightarrow> map (\<lambda>v. [v]) l0 @ concat (map (\<lambda>v. below ls [v]) l0))"




definition one_level_config :: config where
  "one_level_config = \<lparr>levelValues = [[''A'', ''B'']], sumConstraint = 100, months = [''2025-01''],
      valueRanges = \<lparr>rmin = 100, rmax = 100\<rparr>, includeRel = False\<rparr>"

definition siblings :: "rat \<Rightarrow> entry list" where
  "siblings x =
     map (\<lambda>l. \<lparr>path = [l], vals = \<lparr>plan = [''2025-01'' \<mapsto> Num x], forecast = [''2025-01'' \<mapsto> Num x],
                                   rel = None\<rparr>\<rparr>) [''A'', ''B'', ''C'']"

definition zero_range_config :: config where
  "zero_range_config = \<lparr>levelValues = [[''A'', ''B'']], sumConstraint = 100, months = [''2025-01''],
      valueRanges = \<lparr>rmin = 0, rmax = 0\<rparr>, includeRel = False\<rparr>"

text \<open>What the iteration of \<^verbatim>\<open>generateValues\<close> that starts at draw \<open>i\<close> stores for a month.\<close>

definition sampled :: "(nat \<Rightarrow> rat) \<Rightarrow> valueRanges_t \<Rightarrow> bool \<Rightarrow> values_t \<Rightarrow> month \<Rightarrow> nat \<Rightarrow> bool" where
  "sampled rnd ranges inclRel v m i =
     (let baseValue = of_int \<lfloor>rnd i * (rmax ranges - rmin ranges + 1)\<rfloor> + rmin ranges
      in plan v m = Some (Num baseValue) \<and>
         forecast v m = Some (Num (rounded (baseValue * (1 + (rnd (i + 1) * (1 / 10) - 1 / 20))))) \<and>
         (if inclRel
          then (case rel v of None \<Rightarrow> False
                | Some r \<Rightarrow> r m = Some (Num (of_int \<lfloor>rnd (i + 2) * 30\<rfloor> + 1)))
          else rel v = None))"

definition rel_config :: config where
  "rel_config = \<lparr>levelValues = [[''A'', ''B'']], sumConstraint = 100, months = [''2025-01''],
      valueRanges = \<lparr>rmin = 100, rmax = 1000\<rparr>, includeRel = True\<rparr>"

text \<open>The entries stored under a key of \<^verbatim>\<open>groupedEntries\<close>.\<close>

definition members :: "(string \<times> nat list) list \<Rightarrow> string \<Rightarrow> nat list" where
  "members gs k = (case map_of gs k of None \<Rightarrow> [] | Some c \<Rightarrow> c)"


text \<open>The paths of depth \<open>length cur + j\<close> that the walk below \<open>cur\<close> passes, in its order.\<close>

fun parents :: "nat \<Rightarrow> string list list \<Rightarrow> string list \<Rightarrow> string list list" where
  "parents 0 ls cur = [cur]"
| "parents (Suc j) [] cur = []"
| "parents (Suc j) (l # ls) cur = concat (map (\<lambda>v. parents j ls (cur @ [v])) l)"

text \<open>The children of a path, in the order of the labels of their level.\<close>

definition children_of :: "string list \<Rightarrow> string list \<Rightarrow> string list list" where
  "children_of l q = map (\<lambda>v. q @ [v]) l"




text \<open>The values that a group holds for one series and one month.\<close>

definition target_values :: "entry list \<Rightarrow> nat list \<Rightarrow> month \<Rightarrow> valueType \<Rightarrow> jsnum list" where
  "target_values d cs m vt = map (\<lambda>c. get_value (d ! c) vt m) cs"

section \<open>Lemmas\<close>

lemma js_add_Num_iff: "js_add x y = Num s \<longleftrightarrow> (\<exists>a b. x = Num a \<and> y = Num b \<and> s = a + b)"
  by (cases x; cases y) auto

lemma foldl_js_add_not_Num:
  "\<forall>a. x \<noteq> Num a \<Longrightarrow> foldl (\<lambda>sum c. js_add sum (f c)) x cs \<noteq> Num s"
proof (induction cs arbitrary: x)
  case Nil
  then show ?case by simp
next
  case (Cons c cs)
  have "\<forall>a. js_add x (f c) \<noteq> Num a"
    using Cons.prems by (simp add: js_add_Num_iff)
  then show ?case using Cons.IH by simp
qed

lemma foldl_js_add_Num:
  "foldl (\<lambda>sum c. js_add sum (f c)) (Num a) cs = Num s \<longleftrightarrow>
     list_all (\<lambda>c. is_finite (f c)) cs \<and> s = a + sum_list (map (\<lambda>c. num_of (f c)) cs)"
proof (induction cs arbitrary: a)
  case Nil
  then show ?case by auto
next
  case (Cons c cs)
  show ?case
  proof (cases "f c")
    case (Num b)
    then show ?thesis using Cons.IH [of "a + b"] by (simp add: is_finite_def add.assoc)
  next
    case PosInf
    then show ?thesis using foldl_js_add_not_Num [of PosInf f cs s] by (simp add: is_finite_def)
  next
    case NegInf
    then show ?thesis using foldl_js_add_not_Num [of NegInf f cs s] by (simp add: is_finite_def)
  next
    case NaN
    then show ?thesis using foldl_js_add_not_Num [of NaN f cs s] by (simp add: is_finite_def)
  qed
qed

lemma sumValues_Num:
  "sumValues data cs m vt = Num s \<longleftrightarrow>
     list_all (\<lambda>c. is_finite (get_value (data ! c) vt m)) cs \<and>
     s = sum_list (map (\<lambda>c. num_of (get_value (data ! c) vt m)) cs)"
  unfolding sumValues_def using foldl_js_add_Num [of "\<lambda>c. get_value (data ! c) vt m" 0 cs s] by simp

lemma get_set_value_same [simp]: "get_value (set_value e vt m x) vt m = x"
  by (cases vt) (simp_all add: get_value_def)

lemma get_set_value_other:
  "vt' \<noteq> vt \<or> m' \<noteq> m \<Longrightarrow> get_value (set_value e vt m x) vt' m' = get_value e vt' m'"
  by (cases vt; cases vt') (auto simp: get_value_def)

lemma path_set_value [simp]: "path (set_value e vt m x) = path e"
  by (cases vt) simp_all

lemma rel_set_value [simp]: "rel (vals (set_value e vt m x)) = rel (vals e)"
  by (cases vt) simp_all

lemma length_scaleValues [simp]: "length (scaleValues data cs m vt sf) = length data"
  unfolding scaleValues_def by (induction cs arbitrary: data) simp_all

lemma scaleValues_Cons:
  "scaleValues data (c # cs) m vt sf =
     scaleValues (data[c := set_value (data ! c) vt m (js_round (js_mul (get_value (data ! c) vt m) sf))]) cs m vt sf"
  unfolding scaleValues_def by simp

lemma scaleValues_Nil [simp]: "scaleValues data [] m vt sf = data"
  unfolding scaleValues_def by simp

lemma nth_scaleValues:
  "distinct cs \<Longrightarrow> i < length data \<Longrightarrow>
   scaleValues data cs m vt sf ! i =
     (if i \<in> set cs then set_value (data ! i) vt m (js_round (js_mul (get_value (data ! i) vt m) sf))
      else data ! i)"
proof (induction cs arbitrary: data)
  case Nil
  then show ?case by simp
next
  case (Cons c cs)
  let ?d = "data[c := set_value (data ! c) vt m (js_round (js_mul (get_value (data ! c) vt m) sf))]"
  have len: "i < length ?d" using Cons.prems by simp
  have dist: "distinct cs" and notin: "c \<notin> set cs" using Cons.prems by simp_all
  have ih: "scaleValues ?d cs m vt sf ! i =
     (if i \<in> set cs then set_value (?d ! i) vt m (js_round (js_mul (get_value (?d ! i) vt m) sf))
      else ?d ! i)"
    by (rule Cons.IH [OF dist len])
  show ?case
  proof (cases "i = c")
    case True
    then show ?thesis using ih notin Cons.prems(2) by (simp add: scaleValues_Cons)
  next
    case False
    then have "?d ! i = data ! i" by simp
    then show ?thesis using ih False by (simp add: scaleValues_Cons)
  qed
qed

lemma is_finite_iff: "is_finite x \<longleftrightarrow> x = Num (num_of x)"
  by (cases x) (simp_all add: is_finite_def)


lemma set_value_twice [simp]: "set_value (set_value e vt m x) vt m y = set_value e vt m y"
  by (cases vt) simp_all

lemma sumValues_cong:
  "(\<And>c. c \<in> set cs \<Longrightarrow> get_value (d ! c) vt m = get_value (d' ! c) vt m) \<Longrightarrow>
   sumValues d cs m vt = sumValues d' cs m vt"
proof -
  assume h: "\<And>c. c \<in> set cs \<Longrightarrow> get_value (d ! c) vt m = get_value (d' ! c) vt m"
  have "\<And>x. foldl (\<lambda>sum c. js_add sum (get_value (d ! c) vt m)) x cs =
             foldl (\<lambda>sum c. js_add sum (get_value (d' ! c) vt m)) x cs"
    using h by (induction cs) simp_all
  then show ?thesis by (simp add: sumValues_def)
qed

lemma sumValues_finite_values:
  "list_all (\<lambda>c. get_value (d ! c) vt m = Num (g c)) cs \<Longrightarrow>
   sumValues d cs m vt = Num (sum_list (map g cs))"
proof -
  assume h: "list_all (\<lambda>c. get_value (d ! c) vt m = Num (g c)) cs"
  then have "list_all (\<lambda>c. is_finite (get_value (d ! c) vt m)) cs"
    by (simp add: list_all_iff is_finite_def)
  moreover have "map (\<lambda>c. num_of (get_value (d ! c) vt m)) cs = map g cs"
    using h by (induction cs) simp_all
  ultimately show ?thesis by (simp only: sumValues_Num simp_thms)
qed

lemma normalize_finite_nth:
  assumes dist: "distinct cs" and ne: "cs \<noteq> []" and valid: "list_all (\<lambda>c. c < length data) cs"
    and sum: "sumValues data cs m vt = Num s" and nz: "s \<noteq> 0"
  shows "\<exists>data'. normalizeValuesForMonth data cs m vt sumC = Inr data' \<and> length data' = length data \<and>
           (\<forall>i<length data. data' ! i =
              (if i \<in> set cs then set_value (data ! i) vt m (Num (normalized_value data cs m vt sumC i))
               else data ! i))"
proof -
  define a where "a = (\<lambda>c. num_of (get_value (data ! c) vt m))"
  define r where "r = (\<lambda>c. rounded (a c * (sumC / s)))"
  define d1 where "d1 = scaleValues data cs m vt (Num (sumC / s))"
  define l where "l = last cs"
  have fin: "list_all (\<lambda>c. is_finite (get_value (data ! c) vt m)) cs"
    using sum by (simp add: sumValues_Num)
  have val: "get_value (data ! c) vt m = Num (a c)" if "c \<in> set cs" for c
    using fin that by (simp add: list_all_iff is_finite_iff a_def)
  have lt: "c < length data" if "c \<in> set cs" for c
    using valid that by (simp add: list_all_iff)
  have sf: "js_div (Num sumC) (sumValues data cs m vt) = Num (sumC / s)"
    using sum nz by simp
  have d1_nth: "d1 ! i = (if i \<in> set cs then set_value (data ! i) vt m (Num (r i)) else data ! i)"
    if "i < length data" for i
    using nth_scaleValues [OF dist that, of m vt "Num (sumC / s)"] val
    by (auto simp: d1_def r_def)
  have d1_val: "list_all (\<lambda>c. get_value (d1 ! c) vt m = Num (r c)) cs"
    using d1_nth lt by (simp add: list_all_iff)
  have adj: "sumValues d1 cs m vt = Num (sum_list (map r cs))"
    by (rule sumValues_finite_values [OF d1_val])
  have l_in: "l \<in> set cs" using ne by (simp add: l_def)
  have nv: "normalized_value data cs m vt sumC c =
              r c + (if c = l then sumC - sum_list (map r cs) else 0)" for c
    by (simp add: normalized_value_def sum r_def a_def l_def)
  show ?thesis
  proof (cases "sum_list (map r cs) = sumC")
    case True
    have res: "normalizeValuesForMonth data cs m vt sumC = Inr d1"
      using True adj sf by (simp add: normalizeValuesForMonth_def Let_def d1_def)
    have "d1 ! i = (if i \<in> set cs then set_value (data ! i) vt m
                       (Num (normalized_value data cs m vt sumC i)) else data ! i)"
      if "i < length data" for i
      using d1_nth [OF that] True by (simp add: nv)
    then show ?thesis using res by (simp add: d1_def)
  next
    case False
    define d2 where "d2 = d1[l := set_value (d1 ! l) vt m
                                 (js_add (get_value (d1 ! l) vt m) (js_sub (Num sumC) (sumValues d1 cs m vt)))]"
    have res: "normalizeValuesForMonth data cs m vt sumC = Inr d2"
      using False adj sf ne
      by (simp add: normalizeValuesForMonth_def Let_def d1_def d2_def l_def)
    have d1l: "d1 ! l = set_value (data ! l) vt m (Num (r l))"
      using d1_nth [OF lt [OF l_in]] l_in by simp
    have upd: "set_value (d1 ! l) vt m
                 (js_add (get_value (d1 ! l) vt m) (js_sub (Num sumC) (sumValues d1 cs m vt)))
               = set_value (data ! l) vt m (Num (r l + (sumC - sum_list (map r cs))))"
      by (simp add: d1l adj js_sub_def)
    have "d2 ! i = (if i \<in> set cs then set_value (data ! i) vt m
                       (Num (normalized_value data cs m vt sumC i)) else data ! i)"
      if "i < length data" for i
    proof (cases "i = l")
      case True
      then show ?thesis using that l_in upd by (simp add: d2_def d1_def nv)
    next
      case False
      then show ?thesis using d1_nth [OF that] by (simp add: d2_def nv)
    qed
    then show ?thesis using res by (simp add: d2_def d1_def)
  qed
qed

lemma sum_list_normalized:
  assumes dist: "distinct cs" and ne: "cs \<noteq> []"
  shows "sum_list (map (normalized_value data cs m vt sumC) cs) = sumC"
proof -
  define s where "s = num_of (sumValues data cs m vt)"
  define r where "r = (\<lambda>i. rounded (num_of (get_value (data ! i) vt m) * (sumC / s)))"
  obtain bl l where cs: "cs = bl @ [l]"
    using ne by (metis append_butlast_last_id)
  have notin: "l \<notin> set bl" using dist cs by simp
  have nv: "normalized_value data cs m vt sumC c =
              r c + (if c = l then sumC - sum_list (map r cs) else 0)" for c
    by (simp add: normalized_value_def r_def s_def cs)
  have split: "sum_list (map f cs) = sum_list (map f bl) + f l" for f :: "nat \<Rightarrow> rat"
    by (simp add: cs)
  have "map (normalized_value data cs m vt sumC) bl = map r bl"
  proof (rule map_cong [OF refl])
    fix x assume "x \<in> set bl"
    then have "x \<noteq> l" using notin by auto
    then show "normalized_value data cs m vt sumC x = r x" by (simp add: nv)
  qed
  moreover have "normalized_value data cs m vt sumC l = r l + (sumC - sum_list (map r cs))"
    by (simp add: nv)
  ultimately have "sum_list (map (normalized_value data cs m vt sumC) cs) =
               sum_list (map r bl) + (r l + (sumC - sum_list (map r cs)))"
    using split [of "normalized_value data cs m vt sumC"] by (simp only:)
  also have "\<dots> = sumC" by (simp add: split [of r])
  finally show ?thesis .
qed

lemma map_list_update_same:
  assumes "f x = f (d ! c)"
  shows "map f (d[c := x]) = map f d"
proof (cases "c < length d")
  case True
  then show ?thesis using assms by (simp add: map_update list_update_same_conv)
next
  case False
  then show ?thesis by (simp add: list_update_beyond)
qed

lemma scaleValues_map_invariant:
  assumes "\<And>e x. f (set_value e vt m x) = f e"
  shows "map f (scaleValues data cs m vt sf) = map f data"
proof (induction cs arbitrary: data)
  case Nil
  then show ?case by simp
next
  case (Cons c cs)
  show ?case
    by (simp add: scaleValues_Cons Cons.IH map_list_update_same assms)
qed

lemma normalizeValuesForMonth_map_invariant:
  assumes inv: "\<And>e x. f (set_value e vt m x) = f e"
    and res: "normalizeValuesForMonth data cs m vt sumC = Inr data'"
  shows "map f data' = map f data"
  using res scaleValues_map_invariant [of f vt m data cs, OF inv]
  by (auto simp: normalizeValuesForMonth_def Let_def map_list_update_same inv split: if_splits)

lemma foldE_invariant:
  assumes "foldE f xs s = Inr s'" and "P s"
    and "\<And>x t t'. x \<in> set xs \<Longrightarrow> f x t = Inr t' \<Longrightarrow> P t \<Longrightarrow> P t'"
  shows "P s'"
  using assms
proof (induction xs arbitrary: s)
  case Nil
  then show ?case by simp
next
  case (Cons x xs)
  from Cons.prems(1) obtain t where t: "f x s = Inr t" and rest: "foldE f xs t = Inr s'"
    by (auto split: sum.splits)
  have pt: "P t" using Cons.prems(3) [of x s t] t Cons.prems(2) by simp
  have step: "P u'" if "y \<in> set xs" "f y u = Inr u'" "P u" for y u u'
    using Cons.prems(3) [of y u u'] that by simp
  show ?case by (rule Cons.IH [OF rest pt step])
qed

text \<open>A function of an entry that no write of a value changes is the same after the
  normalization of all levels.\<close>

lemma normalizeMonth_map_invariant:
  assumes inv: "\<And>e vt m x. f (set_value e vt m x) = f e"
    and res: "normalizeMonth cs sumC m data = Inr data'"
  shows "map f data' = map f data"
proof -
  from res obtain d1 where a: "normalizeValuesForMonth data cs m Plan sumC = Inr d1"
    and b: "normalizeValuesForMonth d1 cs m Forecast sumC = Inr data'"
    by (auto simp: normalizeMonth_def split: sum.splits)
  show ?thesis
    using normalizeValuesForMonth_map_invariant [OF inv a] normalizeValuesForMonth_map_invariant [OF inv b]
    by simp
qed

lemma normalizeGroup_map_invariant:
  assumes inv: "\<And>e vt m x. f (set_value e vt m x) = f e"
    and res: "normalizeGroup ms sumC g data = Inr data'"
  shows "map f data' = map f data"
  using res unfolding normalizeGroup_def
  by (rule foldE_invariant [where P = "\<lambda>d. map f d = map f data"])
     (simp_all add: normalizeMonth_map_invariant [OF inv])

lemma normalizeLevel_map_invariant:
  assumes inv: "\<And>e vt m x. f (set_value e vt m x) = f e"
    and res: "normalizeLevel ms sumC level data = Inr data'"
  shows "map f data' = map f data"
proof -
  from res obtain gs where "foldE (normalizeGroup ms sumC) gs data = Inr data'"
    by (auto simp: normalizeLevel_def split: sum.splits)
  then show ?thesis
    by (rule foldE_invariant [where P = "\<lambda>d. map f d = map f data"])
       (simp_all add: normalizeGroup_map_invariant [OF inv])
qed

lemma normalizeAllLevelValues_map_invariant:
  assumes inv: "\<And>e vt m x. f (set_value e vt m x) = f e"
    and res: "normalizeAllLevelValues data lv ms sumC = Inr data'"
  shows "map f data' = map f data"
  using res unfolding normalizeAllLevelValues_def
  by (rule foldE_invariant [where P = "\<lambda>d. map f d = map f data"])
     (simp_all add: normalizeLevel_map_invariant [OF inv])

lemma normalizeAllLevelValues_paths:
  "normalizeAllLevelValues data lv ms sumC = Inr data' \<Longrightarrow> map path data' = map path data"
  by (rule normalizeAllLevelValues_map_invariant) simp_all

lemma normalizeAllLevelValues_rel:
  "normalizeAllLevelValues data lv ms sumC = Inr data' \<Longrightarrow>
   map (\<lambda>e. rel (vals e)) data' = map (\<lambda>e. rel (vals e)) data"
  by (rule normalizeAllLevelValues_map_invariant) simp_all


lemma fold_paths:
  assumes "\<And>v s. v \<in> set l \<Longrightarrow> map path (fst (g v s)) = map path (fst s) @ h v"
  shows "map path (fst (fold g l st)) = map path (fst st) @ concat (map h l)"
  using assms by (induction l arbitrary: st) simp_all

lemma pushEntry_paths [simp]:
  "map path (fst (pushEntry rnd ms ranges inclRel p st)) = map path (fst st) @ [p]"
  by (simp add: pushEntry_def)

lemma generatePaths_paths:
  "map path (fst (generatePaths rnd lv ms ranges inclRel cur idx st)) =
     map path (fst st) @ below (drop idx lv) cur"
proof (induction rnd lv ms ranges inclRel cur idx st rule: generatePaths.induct)
  case (1 rnd lv ms ranges inclRel cur idx st)
  show ?case
  proof (cases "length lv \<le> idx")
    case True
    then show ?thesis by (subst generatePaths.simps) simp
  next
    case False
    then have dr: "drop idx lv = (lv ! idx) # drop (Suc idx) lv"
      by (simp add: Cons_nth_drop_Suc)
    have step: "map path (fst (generatePaths rnd lv ms ranges inclRel (cur @ [v]) (idx + 1)
                         (pushEntry rnd ms ranges inclRel (cur @ [v]) s))) =
                map path (fst s) @ ((cur @ [v]) # below (drop (Suc idx) lv) (cur @ [v]))"
      if "v \<in> set (lv ! idx)" for v s
      using "1.IH" [OF False that] by simp
    have "map path (fst (fold (\<lambda>v s. generatePaths rnd lv ms ranges inclRel (cur @ [v]) (idx + 1)
                          (pushEntry rnd ms ranges inclRel (cur @ [v]) s)) (lv ! idx) st)) =
          map path (fst st) @ concat (map (\<lambda>v. (cur @ [v]) # below (drop (Suc idx) lv) (cur @ [v])) (lv ! idx))"
      by (rule fold_paths) (rule step)
    then show ?thesis using False
      by (subst generatePaths.simps) (simp add: dr)
  qed
qed

lemma generateEntriesForAllLevels_paths:
  assumes "generateEntriesForAllLevels rnd lv ms ranges inclRel ([], n) = Inr st"
  shows "map path (fst st) = all_paths lv"
proof (cases lv)
  case Nil
  then show ?thesis using assms by (simp add: generateEntriesForAllLevels_def)
next
  case (Cons l0 ls)
  let ?st1 = "fold (\<lambda>v s. pushEntry rnd ms ranges inclRel [v] s) l0 ([], n)"
  have a: "map path (fst ?st1) = map path (fst ([]::entry list, n)) @ concat (map (\<lambda>v. [[v]]) l0)"
    by (rule fold_paths) simp
  have b: "map path (fst (fold (\<lambda>v s. generatePaths rnd lv ms ranges inclRel [v] 1 s) l0 ?st1)) =
           map path (fst ?st1) @ concat (map (\<lambda>v. below ls [v]) l0)"
    by (rule fold_paths) (simp add: generatePaths_paths Cons)
  have c: "concat (map (\<lambda>v. [[v]]) l0) = map (\<lambda>v. [v]) l0"
    by (induction l0) simp_all
  have "st = fold (\<lambda>v s. generatePaths rnd lv ms ranges inclRel [v] 1 s) l0 ?st1"
    using assms Cons by (simp add: generateEntriesForAllLevels_def)
  then show ?thesis using a b c Cons by (simp add: all_paths_def)
qed





lemma foldE_error:
  "foldE f xs s = Inl e \<Longrightarrow> \<exists>x t. x \<in> set xs \<and> f x t = Inl e"
proof (induction xs arbitrary: s)
  case Nil
  then show ?case by simp
next
  case (Cons x xs)
  show ?case
  proof (cases "f x s")
    case (Inl e')
    then show ?thesis using Cons.prems by auto
  next
    case (Inr t)
    then have "foldE f xs t = Inl e" using Cons.prems by simp
    from Cons.IH [OF this] show ?thesis by auto
  qed
qed

lemma normalizeValuesForMonth_error:
  "normalizeValuesForMonth data cs m vt sumC = Inl e \<Longrightarrow> e = TypeError \<and> cs = []"
  by (auto simp: normalizeValuesForMonth_def Let_def split: if_splits)

lemma normalizeMonth_error:
  "normalizeMonth cs sumC m data = Inl e \<Longrightarrow> e = TypeError \<and> cs = []"
  by (auto simp: normalizeMonth_def split: sum.splits dest: normalizeValuesForMonth_error)

lemma normalizeGroup_error:
  "normalizeGroup ms sumC g data = Inl e \<Longrightarrow> e = TypeError \<and> snd g = []"
  unfolding normalizeGroup_def by (auto dest!: foldE_error normalizeMonth_error)

lemma groupStep_error: "groupStep data i gs = Inl e \<Longrightarrow> e = TypeError"
  by (auto simp: groupStep_def Let_def split: if_splits)

lemma groupEntries_error: "groupEntries data level = Inl e \<Longrightarrow> e = TypeError"
  by (auto simp: groupEntries_def split: if_splits dest!: foldE_error groupStep_error)

lemma normalizeLevel_error: "normalizeLevel ms sumC level data = Inl e \<Longrightarrow> e = TypeError"
  by (auto simp: normalizeLevel_def split: sum.splits dest!: foldE_error normalizeGroup_error groupEntries_error)

lemma normalizeAllLevelValues_error: "normalizeAllLevelValues data lv ms sumC = Inl e \<Longrightarrow> e = TypeError"
  unfolding normalizeAllLevelValues_def by (auto dest!: foldE_error normalizeLevel_error)

lemma generateEntriesForAllLevels_Inr:
  "lv \<noteq> [] \<Longrightarrow> \<exists>st. generateEntriesForAllLevels rnd lv ms ranges inclRel st0 = Inr st"
  by (cases lv) (simp_all add: generateEntriesForAllLevels_def)

lemma set_value_same:
  "get_value e vt m = Num a \<Longrightarrow> set_value e vt m (Num a) = e"
  by (cases vt) (auto simp: get_value_def map_upd_triv split: option.splits)

lemma rounded_of_int [simp]: "rounded (of_int k) = of_int k"
proof -
  have "\<lfloor>(of_int k :: rat) + 1 / 2\<rfloor> = k"
    by (rule floor_unique) simp_all
  then show ?thesis by (simp add: rounded_def)
qed

lemma scaleValues_one:
  assumes "list_all (\<lambda>c. \<exists>k::int. get_value (data ! c) vt m = Num (of_int k)) cs"
  shows "scaleValues data cs m vt (Num 1) = data"
  using assms
proof (induction cs)
  case Nil
  then show ?case by simp
next
  case (Cons c cs)
  then obtain k :: int where k: "get_value (data ! c) vt m = Num (of_int k)" by auto
  have "set_value (data ! c) vt m (js_round (js_mul (get_value (data ! c) vt m) (Num 1))) = data ! c"
    using set_value_same [OF k] k by simp
  then show ?case using Cons by (simp add: scaleValues_Cons)
qed

lemma generateValues_month_same:
  assumes "if inclRel then rel v \<noteq> None else rel v = None"
  shows "sampled rnd ranges inclRel (fst (generateValues_month rnd ranges inclRel m (v, n))) m n"
  using assms by (auto simp: sampled_def generateValues_month_def Let_def)

lemma generateValues_month_other:
  assumes "m' \<noteq> m" and "sampled rnd ranges inclRel v m' i"
  shows "sampled rnd ranges inclRel (fst (generateValues_month rnd ranges inclRel m (v, n))) m' i"
  using assms by (auto simp: sampled_def generateValues_month_def Let_def split: option.splits)

lemma generateValues_month_rel:
  assumes "if inclRel then rel v \<noteq> None else rel v = None"
  shows "if inclRel then rel (fst (generateValues_month rnd ranges inclRel m (v, n))) \<noteq> None
         else rel (fst (generateValues_month rnd ranges inclRel m (v, n))) = None"
  using assms by (auto simp: generateValues_month_def Let_def)

lemma fold_generateValues_month:
  assumes "if inclRel then rel v \<noteq> None else rel v = None"
  shows "(if inclRel then rel (fst (fold (generateValues_month rnd ranges inclRel) ms (v, n))) \<noteq> None
          else rel (fst (fold (generateValues_month rnd ranges inclRel) ms (v, n))) = None) \<and>
         (\<forall>m\<in>set ms. \<exists>i. sampled rnd ranges inclRel
                              (fst (fold (generateValues_month rnd ranges inclRel) ms (v, n))) m i)"
proof (induction ms rule: rev_induct)
  case Nil
  then show ?case using assms by simp
next
  case (snoc m ms)
  obtain v1 n1 where st: "fold (generateValues_month rnd ranges inclRel) ms (v, n) = (v1, n1)"
    by (cases "fold (generateValues_month rnd ranges inclRel) ms (v, n)")
  have ih: "(if inclRel then rel v1 \<noteq> None else rel v1 = None) \<and>
            (\<forall>m\<in>set ms. \<exists>i. sampled rnd ranges inclRel v1 m i)"
    using snoc.IH by (simp only: st fst_conv)
  have r1: "if inclRel then rel v1 \<noteq> None else rel v1 = None"
    by (rule conjunct1 [OF ih])
  have a: "\<exists>i. sampled rnd ranges inclRel (fst (generateValues_month rnd ranges inclRel m (v1, n1))) m' i"
    if "m' \<in> set (ms @ [m])" for m'
  proof (cases "m' = m")
    case True
    then show ?thesis using generateValues_month_same [OF r1] by blast
  next
    case False
    then have "m' \<in> set ms" using that by simp
    then obtain i where "sampled rnd ranges inclRel v1 m' i" using ih by auto
    then show ?thesis using generateValues_month_other [OF False] by blast
  qed
  have eq: "fold (generateValues_month rnd ranges inclRel) (ms @ [m]) (v, n) =
            generateValues_month rnd ranges inclRel m (v1, n1)"
    by (simp add: st)
  show ?case unfolding eq using a generateValues_month_rel [OF r1, of rnd ranges m n1] by blast
qed

lemma generateValues_sampled:
  "m \<in> set ms \<Longrightarrow> \<exists>i. sampled rnd ranges inclRel (fst (generateValues rnd ms ranges inclRel n)) m i"
  unfolding generateValues_def
  using fold_generateValues_month [of inclRel _ rnd ranges ms n] by simp

lemma fold_invariant:
  assumes "P st" and "\<And>v s. v \<in> set l \<Longrightarrow> P s \<Longrightarrow> P (g v s)"
  shows "P (fold g l st)"
  using assms by (induction l arbitrary: st) simp_all

lemma pushEntry_entries:
  assumes "\<forall>e\<in>set (fst st). Q e"
    and "\<And>p k. Q \<lparr>path = p, vals = fst (generateValues rnd ms ranges inclRel k)\<rparr>"
  shows "\<forall>e\<in>set (fst (pushEntry rnd ms ranges inclRel p st)). Q e"
  using assms by (simp add: pushEntry_def)

lemma generatePaths_entries:
  assumes "\<forall>e\<in>set (fst st). Q e"
    and "\<And>p k. Q \<lparr>path = p, vals = fst (generateValues rnd ms ranges inclRel k)\<rparr>"
  shows "\<forall>e\<in>set (fst (generatePaths rnd lv ms ranges inclRel cur idx st)). Q e"
  using assms
proof (induction rnd lv ms ranges inclRel cur idx st rule: generatePaths.induct)
  case (1 rnd lv ms ranges inclRel cur idx st)
  show ?case
  proof (cases "length lv \<le> idx")
    case True
    then show ?thesis using "1.prems"(1) by (subst generatePaths.simps) simp
  next
    case False
    have "\<forall>e\<in>set (fst (fold (\<lambda>v s. generatePaths rnd lv ms ranges inclRel (cur @ [v]) (idx + 1)
                          (pushEntry rnd ms ranges inclRel (cur @ [v]) s)) (lv ! idx) st)). Q e"
    proof (rule fold_invariant [where P = "\<lambda>s::entry list \<times> nat. \<forall>e\<in>set (fst s). Q e"])
      show "\<forall>e\<in>set (fst st). Q e" by (rule "1.prems"(1))
    next
      fix v and s :: "entry list \<times> nat"
      assume v: "v \<in> set (lv ! idx)" and s: "\<forall>e\<in>set (fst s). Q e"
      have "\<forall>e\<in>set (fst (pushEntry rnd ms ranges inclRel (cur @ [v]) s)). Q e"
        using s "1.prems"(2) by (simp add: pushEntry_def)
      then show "\<forall>e\<in>set (fst (generatePaths rnd lv ms ranges inclRel (cur @ [v]) (idx + 1)
                          (pushEntry rnd ms ranges inclRel (cur @ [v]) s))). Q e"
        using "1.prems"(2) by (rule "1.IH" [OF False v])
    qed
    then show ?thesis using False by (subst generatePaths.simps) simp
  qed
qed

lemma generateEntriesForAllLevels_entries:
  assumes gen: "generateEntriesForAllLevels rnd lv ms ranges inclRel ([], n) = Inr st"
    and q: "\<And>p k. Q \<lparr>path = p, vals = fst (generateValues rnd ms ranges inclRel k)\<rparr>"
  shows "\<forall>e\<in>set (fst st). Q e"
proof (cases lv)
  case Nil
  then show ?thesis using gen by (simp add: generateEntriesForAllLevels_def)
next
  case (Cons l0 ls)
  let ?st1 = "fold (\<lambda>v s. pushEntry rnd ms ranges inclRel [v] s) l0 ([], n)"
  have a: "\<forall>e\<in>set (fst ?st1). Q e"
    by (rule fold_invariant [where P = "\<lambda>s::entry list \<times> nat. \<forall>e\<in>set (fst s). Q e"])
       (simp_all add: pushEntry_def q)
  have b: "\<forall>e\<in>set (fst (fold (\<lambda>v s. generatePaths rnd lv ms ranges inclRel [v] 1 s) l0 ?st1)). Q e"
  proof (rule fold_invariant [where P = "\<lambda>s::entry list \<times> nat. \<forall>e\<in>set (fst s). Q e"])
    show "\<forall>e\<in>set (fst ?st1). Q e" by (rule a)
  next
    fix v and s :: "entry list \<times> nat"
    assume "\<forall>e\<in>set (fst s). Q e"
    then show "\<forall>e\<in>set (fst (generatePaths rnd lv ms ranges inclRel [v] 1 s)). Q e"
      by (rule generatePaths_entries) (rule q)
  qed
  have "st = fold (\<lambda>v s. generatePaths rnd lv ms ranges inclRel [v] 1 s) l0 ?st1"
    using gen Cons by (simp add: generateEntriesForAllLevels_def)
  then show ?thesis using b by simp
qed

lemma floor_scaled_bounds:
  fixes r :: rat and c :: int
  assumes "0 \<le> r" and "r < 1" and "0 < c"
  shows "0 \<le> \<lfloor>r * of_int c\<rfloor> \<and> \<lfloor>r * of_int c\<rfloor> < c"
proof -
  have c: "(0::rat) < of_int c" using assms(3) by simp
  have "0 \<le> r * of_int c" using assms(1) c by simp
  moreover have "r * of_int c < of_int c"
    using assms(2) c by (simp add: mult_less_cancel_right2)
  ultimately show ?thesis by (simp add: floor_less_iff)
qed

lemma sampled_range:
  assumes rnd: "\<forall>i. 0 \<le> rnd i \<and> rnd i < 1"
    and lo: "rmin ranges = of_int lo" and hi: "rmax ranges = of_int hi" and le: "lo \<le> hi"
    and s: "sampled rnd ranges inclRel v m i"
  shows "\<exists>k w. plan v m = Some (Num (of_int k)) \<and> lo \<le> k \<and> k \<le> hi \<and>
               k = \<lfloor>rnd i * (of_int hi - of_int lo + 1)\<rfloor> + lo \<and>
               w = rnd (i + 1) * (1 / 10) - 1 / 20 \<and> - (1 / 20) \<le> w \<and> w \<le> 1 / 20 \<and>
               forecast v m = Some (js_round (Num (of_int k * (1 + w))))"
proof -
  define k where "k = \<lfloor>rnd i * (of_int hi - of_int lo + 1)\<rfloor> + lo"
  define w where "w = rnd (i + 1) * (1 / 10) - 1 / 20"
  have "0 \<le> \<lfloor>rnd i * of_int (hi - lo + 1)\<rfloor> \<and> \<lfloor>rnd i * of_int (hi - lo + 1)\<rfloor> < hi - lo + 1"
    by (rule floor_scaled_bounds) (use rnd le in auto)
  then have kb: "lo \<le> k \<and> k \<le> hi" by (simp add: k_def)
  have base: "of_int \<lfloor>rnd i * (rmax ranges - rmin ranges + 1)\<rfloor> + rmin ranges = (of_int k :: rat)"
    by (simp add: k_def lo hi)
  have wb: "- (1 / 20) \<le> w \<and> w \<le> 1 / 20"
    using rnd [rule_format, of "i + 1"] by (simp add: w_def)
  have p: "plan v m = Some (Num (of_int k))"
    using s unfolding sampled_def Let_def base by simp
  have f: "forecast v m = Some (js_round (Num (of_int k * (1 + w))))"
    using s unfolding sampled_def Let_def base w_def by simp
  show ?thesis
  proof (intro exI conjI)
    show "plan v m = Some (Num (of_int k))" by (rule p)
    show "lo \<le> k" and "k \<le> hi" using kb by simp_all
    show "k = \<lfloor>rnd i * (of_int hi - of_int lo + 1)\<rfloor> + lo" by (rule k_def)
    show "w = rnd (i + 1) * (1 / 10) - 1 / 20" by (rule w_def)
    show "- (1 / 20) \<le> w" and "w \<le> 1 / 20" using wb by simp_all
    show "forecast v m = Some (js_round (Num (of_int k * (1 + w))))" by (rule f)
  qed
qed

lemma sampled_rel:
  assumes rnd: "\<forall>i. 0 \<le> rnd i \<and> rnd i < 1"
    and s: "sampled rnd ranges True v m i"
  shows "\<exists>r q. rel v = Some r \<and> r m = Some (Num (of_int q)) \<and> 1 \<le> q \<and> q \<le> 30 \<and>
               q = \<lfloor>rnd (i + 2) * 30\<rfloor> + 1"
proof -
  have "0 \<le> \<lfloor>rnd (i + 2) * of_int 30\<rfloor> \<and> \<lfloor>rnd (i + 2) * of_int 30\<rfloor> < 30"
    by (rule floor_scaled_bounds) (use rnd in auto)
  then have b: "1 \<le> \<lfloor>rnd (i + 2) * 30\<rfloor> + 1 \<and> \<lfloor>rnd (i + 2) * 30\<rfloor> + 1 \<le> 30" by simp
  obtain r where r: "rel v = Some r" and rm: "r m = Some (Num (of_int \<lfloor>rnd (i + 2) * 30\<rfloor> + 1))"
    using s by (auto simp: sampled_def Let_def split: option.splits)
  have rm': "r m = Some (Num (of_int (\<lfloor>rnd (i + 2) * 30\<rfloor> + 1)))" using rm by simp
  show ?thesis
  proof (intro exI conjI)
    show "rel v = Some r" by (rule r)
    show "r m = Some (Num (of_int (\<lfloor>rnd (i + 2) * 30\<rfloor> + 1)))" by (rule rm')
    show "1 \<le> \<lfloor>rnd (i + 2) * 30\<rfloor> + 1" and "\<lfloor>rnd (i + 2) * 30\<rfloor> + 1 \<le> 30" using b by simp_all
    show "\<lfloor>rnd (i + 2) * 30\<rfloor> + 1 = \<lfloor>rnd (i + 2) * 30\<rfloor> + 1" by (rule refl)
  qed
qed

lemma members_Nil [simp]: "members [] k = []"
  by (simp add: members_def)

lemma members_Cons: "members ((k', c) # gs) k = (if k = k' then c else members gs k)"
  by (simp add: members_def)

lemma addToGroup_members:
  "members (addToGroup k i gs) k' = members gs k' @ (if k' = k then [i] else [])"
  by (induction gs) (auto simp: members_Cons)

lemma addToGroup_keys: "set (map fst (addToGroup k i gs)) = insert k (set (map fst gs))"
proof (induction gs)
  case Nil
  then show ?case by simp
next
  case (Cons g gs)
  obtain k' c where g: "g = (k', c)" by (cases g)
  show ?case
  proof (cases "k' = k")
    case True
    then show ?thesis using g by auto
  next
    case False
    then show ?thesis using g Cons.IH by auto
  qed
qed

lemma addToGroup_distinct: "distinct (map fst gs) \<Longrightarrow> distinct (map fst (addToGroup k i gs))"
proof (induction gs)
  case Nil
  then show ?case by simp
next
  case (Cons g gs)
  obtain k' c where g: "g = (k', c)" by (cases g)
  show ?case
  proof (cases "k' = k")
    case True
    then show ?thesis using Cons.prems g by simp
  next
    case False
    have "k' \<notin> set (map fst (addToGroup k i gs))"
      using Cons.prems g False by (simp only: addToGroup_keys) auto
    then show ?thesis using Cons g False by simp
  qed
qed

lemma foldE_groupStep:
  assumes "foldE (groupStep data) is gs0 = Inr gs" and "distinct (map fst gs0)"
  shows "distinct (map fst gs) \<and>
         set (map fst gs) = set (map fst gs0) \<union> (\<lambda>i. parentPath (data ! i)) ` set is \<and>
         (\<forall>k. members gs k = members gs0 k @ filter (\<lambda>i. parentPath (data ! i) = k) is)"
  using assms
proof (induction "is" arbitrary: gs0)
  case Nil
  then show ?case by simp
next
  case (Cons i "is")
  let ?k = "parentPath (data ! i)"
  from Cons.prems(1) obtain gs1 where s1: "groupStep data i gs0 = Inr gs1"
    and r1: "foldE (groupStep data) is gs1 = Inr gs"
    by (auto split: sum.splits)
  have "gs1 = addToGroup ?k i gs0"
    using s1 by (auto simp: groupStep_def Let_def split: if_splits)
  then have rest: "foldE (groupStep data) is (addToGroup ?k i gs0) = Inr gs"
    using r1 by simp
  have d: "distinct (map fst (addToGroup ?k i gs0))"
    by (rule addToGroup_distinct [OF Cons.prems(2)])
  note ih = Cons.IH [OF rest d]
  have a: "distinct (map fst gs)" by (rule conjunct1 [OF ih])
  have b: "set (map fst gs) = set (map fst (addToGroup ?k i gs0)) \<union> (\<lambda>i. parentPath (data ! i)) ` set is"
    by (rule conjunct1 [OF conjunct2 [OF ih]])
  have c: "members gs k = members (addToGroup ?k i gs0) k @ filter (\<lambda>i. parentPath (data ! i) = k) is" for k
    using conjunct2 [OF conjunct2 [OF ih]] by (rule spec)
  have b': "set (map fst gs) = set (map fst gs0) \<union> (\<lambda>i. parentPath (data ! i)) ` set (i # is)"
    unfolding b addToGroup_keys by auto
  have c': "members gs k = members gs0 k @ filter (\<lambda>i. parentPath (data ! i) = k) (i # is)" for k
    unfolding c addToGroup_members by simp
  show ?case by (intro conjI allI) (rule a, rule b', rule c')
qed

lemma members_of_group:
  "distinct (map fst gs) \<Longrightarrow> (k, c) \<in> set gs \<Longrightarrow> members gs k = c"
  by (simp add: members_def)

lemma groupEntries_deeper:
  assumes g: "groupEntries data level = Inr gs" and lev: "level \<noteq> 1"
  shows "distinct (map fst gs) \<and>
         set (map fst gs) = (\<lambda>i. parentPath (data ! i)) ` set (entriesAtLevel data level) \<and>
         (\<forall>k c. (k, c) \<in> set gs \<longrightarrow>
            c = filter (\<lambda>i. parentPath (data ! i) = k) (entriesAtLevel data level) \<and> c \<noteq> [])"
proof -
  have f: "foldE (groupStep data) (entriesAtLevel data level) [] = Inr gs"
    using g lev by (simp add: groupEntries_def)
  from foldE_groupStep [OF f] have
    a: "distinct (map fst gs)" and
    b: "set (map fst gs) = (\<lambda>i. parentPath (data ! i)) ` set (entriesAtLevel data level)" and
    c: "\<And>k. members gs k = filter (\<lambda>i. parentPath (data ! i) = k) (entriesAtLevel data level)"
    by simp_all
  have "c' = filter (\<lambda>i. parentPath (data ! i) = k) (entriesAtLevel data level) \<and> c' \<noteq> []"
    if kc: "(k, c') \<in> set gs" for k c'
  proof -
    have eq: "c' = filter (\<lambda>i. parentPath (data ! i) = k) (entriesAtLevel data level)"
      using members_of_group [OF a kc] c by simp
    have "k \<in> set (map fst gs)" using kc by force
    then obtain i where "i \<in> set (entriesAtLevel data level)" "parentPath (data ! i) = k"
      unfolding b by auto
    then have "i \<in> set (filter (\<lambda>i. parentPath (data ! i) = k) (entriesAtLevel data level))"
      by simp
    then have "filter (\<lambda>i. parentPath (data ! i) = k) (entriesAtLevel data level) \<noteq> []"
      by (metis empty_iff empty_set)
    then show ?thesis using eq by simp
  qed
  then have c2: "\<forall>k c. (k, c) \<in> set gs \<longrightarrow>
            c = filter (\<lambda>i. parentPath (data ! i) = k) (entriesAtLevel data level) \<and> c \<noteq> []"
    by simp
  show ?thesis by (intro conjI) (rule a, rule b, rule c2)
qed





lemma filter_nth_map:
  "map (\<lambda>i. f (xs ! i)) (filter (\<lambda>i. P (f (xs ! i))) [0..<length xs]) = filter P (map f xs)"
proof -
  have "filter P (map f xs) = map f (filter (\<lambda>x. P (f x)) xs)"
    by (simp add: filter_map comp_def)
  also have "filter (\<lambda>x. P (f x)) xs = filter (\<lambda>x. P (f x)) (map (\<lambda>i. xs ! i) [0..<length xs])"
    by (simp add: map_nth)
  also have "\<dots> = map (\<lambda>i. xs ! i) (filter (\<lambda>i. P (f (xs ! i))) [0..<length xs])"
    by (simp add: filter_map comp_def)
  finally show ?thesis by (simp add: comp_def)
qed

lemma below_longer: "p \<in> set (below ls cur) \<Longrightarrow> length cur < length p"
proof (induction ls arbitrary: cur)
  case Nil
  then show ?case by simp
next
  case (Cons l ls)
  from Cons.prems obtain v where "v \<in> set l" and "p = cur @ [v] \<or> p \<in> set (below ls (cur @ [v]))"
    by auto
  then show ?case using Cons.IH [of "cur @ [v]"] by auto
qed

lemma filter_below_none:
  "n \<le> length cur \<Longrightarrow> filter (\<lambda>p. length p = n) (below ls cur) = []"
  by (fastforce simp: filter_empty_conv dest: below_longer)

lemma concat_map_concat:
  "concat (map f (concat xss)) = concat (map (\<lambda>xs. concat (map f xs)) xss)"
  by (induction xss) simp_all

lemma below_level:
  "j < length ls \<Longrightarrow>
   filter (\<lambda>p. length p = Suc (length cur + j)) (below ls cur) =
     concat (map (children_of (ls ! j)) (parents j ls cur))"
proof (induction ls arbitrary: j cur)
  case Nil
  then show ?case by simp
next
  case (Cons l ls)
  show ?case
  proof (cases j)
    case 0
    have "filter (\<lambda>p. length p = Suc (length cur)) ((cur @ [v]) # below ls (cur @ [v])) = [cur @ [v]]" for v
      using filter_below_none [of "Suc (length cur)" "cur @ [v]" ls] by simp
    then have "filter (\<lambda>p. length p = Suc (length cur)) (below (l # ls) cur) = concat (map (\<lambda>v. [cur @ [v]]) l)"
      by (simp add: filter_concat comp_def del: filter.simps)
    also have "\<dots> = map (\<lambda>v. cur @ [v]) l" by (induction l) simp_all
    finally show ?thesis using 0 by (simp add: children_of_def)
  next
    case (Suc j')
    then have j': "j' < length ls" using Cons.prems by simp
    have one: "filter (\<lambda>p. length p = Suc (length cur + j)) ((cur @ [v]) # below ls (cur @ [v])) =
               concat (map (children_of (ls ! j')) (parents j' ls (cur @ [v])))" for v
      using Cons.IH [OF j', of "cur @ [v]"] Suc by simp
    have "filter (\<lambda>p. length p = Suc (length cur + j)) (below (l # ls) cur) =
          concat (map (\<lambda>v. filter (\<lambda>p. length p = Suc (length cur + j))
                                ((cur @ [v]) # below ls (cur @ [v]))) l)"
      by (simp add: filter_concat comp_def del: filter.simps)
    also have "\<dots> = concat (map (\<lambda>v. concat (map (children_of (ls ! j')) (parents j' ls (cur @ [v])))) l)"
      by (simp only: one)
    also have "\<dots> = concat (map (children_of (ls ! j')) (concat (map (\<lambda>v. parents j' ls (cur @ [v])) l)))"
      by (simp add: concat_map_concat comp_def)
    finally show ?thesis using Suc by simp
  qed
qed

text \<open>The entries of one level are the children of a list of parents, parent after parent.\<close>

lemma all_paths_level:
  assumes "1 \<le> level" and "level \<le> length lv"
  shows "\<exists>qs. filter (\<lambda>p. length p = level) (all_paths lv) =
               concat (map (children_of (lv ! (level - 1))) qs) \<and>
              (level = 1 \<longrightarrow> qs = [[]])"
proof (cases lv)
  case Nil
  then show ?thesis using assms by simp
next
  case (Cons l0 ls)
  show ?thesis
  proof (cases "level = 1")
    case True
    have "filter (\<lambda>p. length p = 1) (concat (map (\<lambda>v. below ls [v]) l0)) = []"
      using filter_below_none [of 1 _ ls] by (simp add: filter_concat comp_def)
    then have "filter (\<lambda>p. length p = level) (all_paths lv) = map (\<lambda>v. [v]) l0"
      using True Cons by (simp add: all_paths_def)
    then show ?thesis using True Cons by (simp add: children_of_def)
  next
    case False
    then obtain j where j: "level = Suc (Suc j)" using assms(1)
      by (metis One_nat_def Suc_le_D le_Suc_eq not_less_eq_eq old.nat.exhaust)
    then have jl: "j < length ls" using assms(2) Cons by simp
    have "filter (\<lambda>p. length p = level) (below ls [v]) =
            concat (map (children_of (ls ! j)) (parents j ls [v]))" for v
      using below_level [OF jl, of "[v]"] j by simp
    then have "filter (\<lambda>p. length p = level) (concat (map (\<lambda>v. below ls [v]) l0)) =
               concat (map (\<lambda>v. concat (map (children_of (ls ! j)) (parents j ls [v]))) l0)"
      by (simp add: filter_concat comp_def)
    also have "\<dots> = concat (map (children_of (ls ! j)) (concat (map (\<lambda>v. parents j ls [v]) l0)))"
      by (simp add: concat_map_concat comp_def)
    finally have "filter (\<lambda>p. length p = level) (all_paths lv) =
                  concat (map (children_of (lv ! (level - 1))) (concat (map (\<lambda>v. parents j ls [v]) l0)))"
      using j Cons by (simp add: all_paths_def)
    then show ?thesis using False by blast
  qed
qed

lemma filter_children_of:
  "filter (\<lambda>p. P (butlast p)) (concat (map (children_of l) qs)) =
     concat (map (children_of l) (filter P qs))"
proof (induction qs)
  case Nil
  then show ?case by simp
next
  case (Cons q qs)
  have "filter (\<lambda>p. P (butlast p)) (children_of l q) = (if P q then children_of l q else [])"
    by (simp add: children_of_def filter_map comp_def)
  then show ?case using Cons by simp
qed

lemma last_children_of:
  "map last (concat (map (children_of l) qs)) = concat (replicate (length qs) l)"
proof (induction qs)
  case Nil
  then show ?case by simp
next
  case (Cons q qs)
  have "map last (children_of l q) = l"
    by (simp add: children_of_def comp_def)
  then show ?case using Cons by simp
qed

lemma entriesAtLevel_paths:
  "map (\<lambda>i. path (data ! i)) (filter (\<lambda>i. P (path (data ! i))) [0..<length data]) =
     filter P (map path data)"
  by (rule filter_nth_map)

lemma group_members_order:
  assumes paths: "map path data = all_paths lv"
    and lev: "1 \<le> level" "level \<le> length lv"
    and nonempty: "[] \<notin> set lv"
    and g: "groupEntries data level = Inr gs"
    and kc: "(k, cs) \<in> set gs"
  shows "distinct cs \<and> cs \<noteq> [] \<and> list_all (\<lambda>c. c < length data) cs \<and>
         (\<exists>r. map (\<lambda>c. last (path (data ! c))) cs = concat (replicate r (lv ! (level - 1)))) \<and>
         last (path (data ! last cs)) = last (lv ! (level - 1))"
proof -
  let ?L = "lv ! (level - 1)"
  have L: "?L \<noteq> []" using lev nonempty by (metis One_nat_def Suc_le_lessD Suc_pred diff_less nth_mem less_le_trans zero_less_one)
  obtain qs where qs: "filter (\<lambda>p. length p = level) (all_paths lv) = concat (map (children_of ?L) qs)"
    and qs1: "level = 1 \<longrightarrow> qs = [[]]"
    using all_paths_level [OF lev] by blast
  have core: "distinct cs \<and> list_all (\<lambda>c. c < length data) cs \<and>
              (\<exists>qs'. map (\<lambda>c. path (data ! c)) cs = concat (map (children_of ?L) qs') \<and>
                     (cs \<noteq> [] \<or> qs' \<noteq> []))"
  proof (cases "level = 1")
    case True
    then have cs: "cs = filter (\<lambda>i. length (path (data ! i)) = level) [0..<length data]"
      using g kc by (auto simp: groupEntries_def entriesAtLevel_def)
    have "map (\<lambda>c. path (data ! c)) cs = filter (\<lambda>p. length p = level) (map path data)"
      unfolding cs by (rule entriesAtLevel_paths)
    then have "map (\<lambda>c. path (data ! c)) cs = concat (map (children_of ?L) [[]])"
      using paths qs qs1 True by simp
    moreover have "distinct cs" and "list_all (\<lambda>c. c < length data) cs"
      unfolding cs by (simp_all add: list_all_iff)
    ultimately show ?thesis by blast
  next
    case False
    have c1: "cs = filter (\<lambda>i. parentPath (data ! i) = k) (entriesAtLevel data level)" and c2: "cs \<noteq> []"
      using groupEntries_deeper [OF g False] kc by blast+
    have cs: "cs = filter (\<lambda>i. (\<lambda>p. length p = level \<and> join ''|'' (butlast p) = k) (path (data ! i)))
                     [0..<length data]"
      unfolding c1 entriesAtLevel_def parentPath_def by (simp add: conj_commute)
    have "map (\<lambda>c. path (data ! c)) cs =
            filter (\<lambda>p. length p = level \<and> join ''|'' (butlast p) = k) (map path data)"
      unfolding cs by (rule entriesAtLevel_paths)
    also have "\<dots> = filter (\<lambda>p. join ''|'' (butlast p) = k) (filter (\<lambda>p. length p = level) (all_paths lv))"
      by (simp add: paths conj_commute)
    also have "\<dots> = concat (map (children_of ?L) (filter (\<lambda>q. join ''|'' q = k) qs))"
      unfolding qs by (rule filter_children_of)
    finally have "map (\<lambda>c. path (data ! c)) cs =
                    concat (map (children_of ?L) (filter (\<lambda>q. join ''|'' q = k) qs))" .
    moreover have "distinct cs" and "list_all (\<lambda>c. c < length data) cs"
      unfolding cs by (simp_all add: list_all_iff)
    ultimately show ?thesis using c2 by blast
  qed
  then obtain qs' where d: "distinct cs" and v: "list_all (\<lambda>c. c < length data) cs"
    and m: "map (\<lambda>c. path (data ! c)) cs = concat (map (children_of ?L) qs')"
    and n: "cs \<noteq> [] \<or> qs' \<noteq> []"
    by blast
  have "map (\<lambda>c. last (path (data ! c))) cs = map last (map (\<lambda>c. path (data ! c)) cs)"
    by (simp add: comp_def)
  then have labels: "map (\<lambda>c. last (path (data ! c))) cs = concat (replicate (length qs') ?L)"
    unfolding m by (simp add: last_children_of)
  have ne: "cs \<noteq> []"
  proof
    assume e: "cs = []"
    then have "qs' \<noteq> []" using n by simp
    then have "concat (replicate (length qs') ?L) \<noteq> []" using L by (cases qs') simp_all
    then show False using labels e by simp
  qed
  have r: "qs' \<noteq> []" using ne labels by (cases qs') auto
  have "last (map (\<lambda>c. last (path (data ! c))) cs) = last (concat (replicate (length qs') ?L))"
    by (simp only: labels)
  moreover have "last (concat (replicate (length qs') ?L)) = last ?L"
    using r L by (induction qs') (auto simp: last_append)
  ultimately have "last (path (data ! last cs)) = last ?L"
    using ne by (simp add: last_map)
  then show ?thesis using d ne v labels by blast
qed











lemma normalizeMonth_succeeds:
  assumes "cs \<noteq> []"
  shows "\<exists>data'. normalizeMonth cs sumC m data = Inr data'"
proof (cases "normalizeMonth cs sumC m data")
  case (Inl e)
  then show ?thesis using normalizeMonth_error assms by blast
next
  case (Inr d)
  then show ?thesis by simp
qed





lemma js_add_non_finite_left: "\<not> is_finite x \<Longrightarrow> \<not> is_finite (js_add x y)"
  by (cases x; cases y) (simp_all add: is_finite_def)

lemma js_mul_inf_of_sign: "\<not> is_finite (js_mul (Num a) (inf_of_sign c))"
  by (simp add: inf_of_sign_def is_finite_def)

lemma sumValues_non_finite:
  assumes "c \<in> set cs" and "\<not> is_finite (get_value (d ! c) vt m)"
  shows "\<not> is_finite (sumValues d cs m vt)"
proof
  assume "is_finite (sumValues d cs m vt)"
  then obtain s where "sumValues d cs m vt = Num s" by (auto simp: is_finite_iff)
  then have "list_all (\<lambda>c. is_finite (get_value (d ! c) vt m)) cs" by (simp add: sumValues_Num)
  then show False using assms by (simp add: list_all_iff)
qed

lemma js_strict_neq_non_finite: "\<not> is_finite x \<Longrightarrow> js_strict_neq x (Num c)"
  by (cases x) (simp_all add: is_finite_def)

text \<open>A group whose sum is zero: the normalization throws nothing and leaves a value that
  is not finite in every member.\<close>

lemma zero_sum_stores_non_finite:
  assumes dist: "distinct cs" and ne: "cs \<noteq> []" and valid: "list_all (\<lambda>c. c < length data) cs"
    and sum: "sumValues data cs m vt = Num 0"
  shows "\<exists>data'. normalizeValuesForMonth data cs m vt sumC = Inr data' \<and>
           list_all (\<lambda>c. \<not> is_finite (get_value (data' ! c) vt m)) cs"
proof -
  define d1 where "d1 = scaleValues data cs m vt (inf_of_sign sumC)"
  define l where "l = last cs"
  have fin: "list_all (\<lambda>c. is_finite (get_value (data ! c) vt m)) cs"
    using sum by (simp add: sumValues_Num)
  have lt: "c < length data" if "c \<in> set cs" for c
    using valid that by (simp add: list_all_iff)
  have sf: "js_div (Num sumC) (sumValues data cs m vt) = inf_of_sign sumC"
    using sum by simp
  have d1_val: "\<not> is_finite (get_value (d1 ! c) vt m)" if c: "c \<in> set cs" for c
  proof -
    obtain a where a: "get_value (data ! c) vt m = Num a"
      using fin c by (auto simp: list_all_iff is_finite_iff)
    have "d1 ! c = set_value (data ! c) vt m (js_round (js_mul (Num a) (inf_of_sign sumC)))"
      using nth_scaleValues [OF dist lt [OF c], of m vt "inf_of_sign sumC"] c a by (simp add: d1_def)
    moreover have "js_round (js_mul (Num a) (inf_of_sign sumC)) = js_mul (Num a) (inf_of_sign sumC)"
      by (simp add: inf_of_sign_def)
    ultimately show ?thesis using js_mul_inf_of_sign [of a sumC] by simp
  qed
  have l_in: "l \<in> set cs" using ne by (simp add: l_def)
  have adj: "\<not> is_finite (sumValues d1 cs m vt)"
    by (rule sumValues_non_finite [OF l_in d1_val [OF l_in]])
  define d2 where "d2 = d1[l := set_value (d1 ! l) vt m
                               (js_add (get_value (d1 ! l) vt m) (js_sub (Num sumC) (sumValues d1 cs m vt)))]"
  have res: "normalizeValuesForMonth data cs m vt sumC = Inr d2"
    using js_strict_neq_non_finite [OF adj] ne
    by (simp add: normalizeValuesForMonth_def Let_def sf d1_def d2_def l_def)
  have len: "length d1 = length data" by (simp add: d1_def)
  have "\<not> is_finite (get_value (d2 ! c) vt m)" if c: "c \<in> set cs" for c
  proof (cases "c = l")
    case True
    have "d2 ! l = set_value (d1 ! l) vt m
                     (js_add (get_value (d1 ! l) vt m) (js_sub (Num sumC) (sumValues d1 cs m vt)))"
      using lt [OF l_in] len by (simp add: d2_def)
    then show ?thesis using True js_add_non_finite_left [OF d1_val [OF l_in]] by simp
  next
    case False
    then show ?thesis using d1_val [OF c] by (simp add: d2_def)
  qed
  then have "list_all (\<lambda>c. \<not> is_finite (get_value (d2 ! c) vt m)) cs"
    by (simp add: list_all_iff)
  then show ?thesis using res by blast
qed

lemma foldE_cong:
  assumes "\<And>x s. x \<in> set xs \<Longrightarrow> f x s = g x s"
  shows "foldE f xs s = foldE g xs s"
  using assms by (induction xs arbitrary: s) (simp_all split: sum.splits)

lemma entriesAtLevel_cong:
  assumes "map path d = map path d'"
  shows "entriesAtLevel d level = entriesAtLevel d' level"
proof -
  have len: "length d = length d'" using assms by (metis length_map)
  have "path (d ! i) = path (d' ! i)" if "i < length d" for i
    using assms that len by (metis nth_map)
  then show ?thesis unfolding entriesAtLevel_def len [symmetric]
    by (intro filter_cong) auto
qed

lemma groupEntries_cong:
  assumes "map path d = map path d'"
  shows "groupEntries d level = groupEntries d' level"
proof -
  have len: "length d = length d'" using assms by (metis length_map)
  have p: "path (d ! i) = path (d' ! i)" if "i < length d" for i
    using assms that len by (metis nth_map)
  have "groupStep d i gs = groupStep d' i gs" if "i \<in> set (entriesAtLevel d level)" for i gs
  proof -
    have "i < length d" using that by (simp add: entriesAtLevel_def)
    then show ?thesis using p by (simp add: groupStep_def parentPath_def)
  qed
  then have "foldE (groupStep d) (entriesAtLevel d level) [] = foldE (groupStep d') (entriesAtLevel d level) []"
    by (rule foldE_cong)
  then show ?thesis
    unfolding groupEntries_def entriesAtLevel_cong [OF assms, of level] by simp
qed

text \<open>What a step of the normalization leaves as it was.\<close>

lemma scaleValues_outside:
  "c \<notin> set cs \<Longrightarrow> scaleValues d cs m vt sf ! c = d ! c"
  by (induction cs arbitrary: d) (simp_all add: scaleValues_Cons)

lemma scaleValues_other_value:
  assumes "m' \<noteq> m \<or> vt' \<noteq> vt"
  shows "get_value (scaleValues d cs m' vt' sf ! c) vt m = get_value (d ! c) vt m"
proof (induction cs arbitrary: d)
  case Nil
  then show ?case by simp
next
  case (Cons c' cs)
  let ?x = "set_value (d ! c') vt' m' (js_round (js_mul (get_value (d ! c') vt' m') sf))"
  have "get_value (d[c' := ?x] ! c) vt m = get_value (d ! c) vt m"
  proof (cases "c = c' \<and> c' < length d")
    case True
    then show ?thesis using assms by (auto simp: get_set_value_other)
  next
    case False
    then show ?thesis by (cases "c' < length d") (auto simp: list_update_beyond)
  qed
  then show ?case using Cons.IH [of "d[c' := ?x]"] by (simp add: scaleValues_Cons)
qed

lemma update_other_value:
  assumes "m' \<noteq> m \<or> vt' \<noteq> vt"
  shows "get_value (d[c' := set_value (d ! c') vt' m' x] ! c) vt m = get_value (d ! c) vt m"
proof (cases "c = c' \<and> c' < length d")
  case True
  then show ?thesis using assms by (auto simp: get_set_value_other)
next
  case False
  then show ?thesis by (cases "c' < length d") (auto simp: list_update_beyond)
qed

lemma normalizeValuesForMonth_foreign:
  assumes res: "normalizeValuesForMonth d cs' m' vt' sumC = Inr d'"
    and foreign: "set cs' \<inter> set cs = {} \<or> m' \<noteq> m \<or> vt' \<noteq> vt"
    and c: "c \<in> set cs"
  shows "get_value (d' ! c) vt m = get_value (d ! c) vt m"
proof (cases "m' \<noteq> m \<or> vt' \<noteq> vt")
  case True
  show ?thesis
    using res scaleValues_other_value [OF True] update_other_value [OF True]
    by (auto simp: normalizeValuesForMonth_def Let_def split: if_splits)
next
  case False
  then have disj: "set cs' \<inter> set cs = {}" using foreign by blast
  then have notin: "c \<notin> set cs'" using c by auto
  have "d' ! c = d ! c"
  proof (cases "cs' = []")
    case True
    then show ?thesis using res
      by (auto simp: normalizeValuesForMonth_def Let_def split: if_splits)
  next
    case False
    then have "last cs' \<in> set cs'" by simp
    then have "last cs' \<noteq> c" using notin by auto
    then show ?thesis using res scaleValues_outside [OF notin]
      by (auto simp: normalizeValuesForMonth_def Let_def split: if_splits)
  qed
  then show ?thesis by simp
qed

lemma sumValues_target_values:
  "sumValues d cs m vt = foldl js_add (Num 0) (target_values d cs m vt)"
  by (simp add: sumValues_def target_values_def foldl_map)

lemma target_values_eqI:
  "(\<And>c. c \<in> set cs \<Longrightarrow> get_value (d' ! c) vt m = get_value (d ! c) vt m) \<Longrightarrow>
   target_values d' cs m vt = target_values d cs m vt"
  by (simp add: target_values_def)

lemma normalizeValuesForMonth_length:
  "normalizeValuesForMonth d cs m vt sumC = Inr d' \<Longrightarrow> length d' = length d"
  using normalizeValuesForMonth_map_invariant [of path vt m d cs sumC d'] by (metis length_map path_set_value)

lemma normalizeMonth_foreign:
  assumes res: "normalizeMonth cs' sumC m' d = Inr d'"
    and foreign: "set cs' \<inter> set cs = {} \<or> m' \<noteq> m"
  shows "target_values d' cs m vt = target_values d cs m vt"
proof -
  from res obtain d1 where a: "normalizeValuesForMonth d cs' m' Plan sumC = Inr d1"
    and b: "normalizeValuesForMonth d1 cs' m' Forecast sumC = Inr d'"
    by (auto simp: normalizeMonth_def split: sum.splits)
  have "get_value (d' ! c) vt m = get_value (d ! c) vt m" if c: "c \<in> set cs" for c
    using normalizeValuesForMonth_foreign [OF a _ c, of m vt]
          normalizeValuesForMonth_foreign [OF b _ c, of m vt] foreign
    by auto
  then show ?thesis by (rule target_values_eqI)
qed

lemma normalizeGroup_foreign:
  assumes res: "normalizeGroup ms sumC g d = Inr d'"
    and foreign: "set (snd g) \<inter> set cs = {}"
  shows "target_values d' cs m vt = target_values d cs m vt"
  using res unfolding normalizeGroup_def
proof (rule foldE_invariant [where P = "\<lambda>u. target_values u cs m vt = target_values d cs m vt"])
  show "target_values d cs m vt = target_values d cs m vt" by simp
next
  fix m' :: month and t t' :: "entry list"
  assume "normalizeMonth (snd g) sumC m' t = Inr t'"
    and "target_values t cs m vt = target_values d cs m vt"
  then show "target_values t' cs m vt = target_values d cs m vt"
    using normalizeMonth_foreign [of "snd g" sumC m' t t' cs m vt] foreign by simp
qed

lemma group_members_level:
  assumes g: "groupEntries d level = Inr gs" and ga: "ga \<in> set gs"
  shows "set (snd ga) \<subseteq> set (entriesAtLevel d level)"
proof (cases "level = 1")
  case True
  then show ?thesis using g ga by (auto simp: groupEntries_def)
next
  case False
  obtain k c where kc: "ga = (k, c)" by (cases ga)
  have "c = filter (\<lambda>i. parentPath (d ! i) = k) (entriesAtLevel d level)"
    using groupEntries_deeper [OF g False] ga kc by blast
  then show ?thesis using kc by auto
qed

lemma normalizeLevel_foreign:
  assumes res: "normalizeLevel ms sumC level' d = Inr d'"
    and other: "level' \<noteq> level"
    and cs: "set cs \<subseteq> set (entriesAtLevel d level)"
  shows "target_values d' cs m vt = target_values d cs m vt"
proof -
  from res obtain gs where g: "groupEntries d level' = Inr gs"
    and f: "foldE (normalizeGroup ms sumC) gs d = Inr d'"
    by (auto simp: normalizeLevel_def split: sum.splits)
  have disj: "set (snd ga) \<inter> set cs = {}" if "ga \<in> set gs" for ga
    using group_members_level [OF g that] cs other by (auto simp: entriesAtLevel_def)
  show ?thesis
    using f
  proof (rule foldE_invariant [where P = "\<lambda>u. target_values u cs m vt = target_values d cs m vt"])
    show "target_values d cs m vt = target_values d cs m vt" by simp
  next
    fix ga and t t' :: "entry list"
    assume "ga \<in> set gs" and "normalizeGroup ms sumC ga t = Inr t'"
      and "target_values t cs m vt = target_values d cs m vt"
    then show "target_values t' cs m vt = target_values d cs m vt"
      using normalizeGroup_foreign [of ms sumC ga t t' cs m vt] disj by simp
  qed
qed

text \<open>The step that normalizes the group itself.\<close>

lemma normalizeValuesForMonth_target:
  assumes dist: "distinct cs" and ne: "cs \<noteq> []" and valid: "list_all (\<lambda>c. c < length d) cs"
    and sum: "sumValues d cs m vt = Num s" and nz: "s \<noteq> 0"
    and res: "normalizeValuesForMonth d cs m vt sumC = Inr d'"
  shows "sumValues d' cs m vt = Num sumC"
proof -
  obtain d2 where r2: "normalizeValuesForMonth d cs m vt sumC = Inr d2"
    and nth: "\<forall>i<length d. d2 ! i =
                (if i \<in> set cs then set_value (d ! i) vt m (Num (normalized_value d cs m vt sumC i))
                 else d ! i)"
    using normalize_finite_nth [OF dist ne valid sum nz] by blast
  have eq: "d2 = d'" using r2 res by simp
  have lt: "c < length d" if "c \<in> set cs" for c
    using valid that by (simp add: list_all_iff)
  have "list_all (\<lambda>c. get_value (d' ! c) vt m = Num (normalized_value d cs m vt sumC c)) cs"
    using nth lt eq by (simp add: list_all_iff)
  then have "sumValues d' cs m vt = Num (sum_list (map (normalized_value d cs m vt sumC) cs))"
    by (rule sumValues_finite_values)
  then show ?thesis by (simp only: sum_list_normalized [OF dist ne])
qed

lemma normalizeMonth_target:
  assumes dist: "distinct cs" and ne: "cs \<noteq> []" and valid: "list_all (\<lambda>c. c < length d) cs"
    and sum: "sumValues d cs m vt = Num s" and nz: "s \<noteq> 0"
    and res: "normalizeMonth cs sumC m d = Inr d'"
  shows "sumValues d' cs m vt = Num sumC"
proof -
  from res obtain d1 where a: "normalizeValuesForMonth d cs m Plan sumC = Inr d1"
    and b: "normalizeValuesForMonth d1 cs m Forecast sumC = Inr d'"
    by (auto simp: normalizeMonth_def split: sum.splits)
  have len1: "length d1 = length d" by (rule normalizeValuesForMonth_length [OF a])
  show ?thesis
  proof (cases vt)
    case Plan
    have s1: "sumValues d1 cs m Plan = Num sumC"
      using normalizeValuesForMonth_target [OF dist ne valid _ nz a] sum Plan by simp
    have "target_values d' cs m Plan = target_values d1 cs m Plan"
      by (rule target_values_eqI) (rule normalizeValuesForMonth_foreign [OF b], simp)
    then show ?thesis using s1 Plan by (simp add: sumValues_target_values)
  next
    case Forecast
    have "target_values d1 cs m Forecast = target_values d cs m Forecast"
      by (rule target_values_eqI) (rule normalizeValuesForMonth_foreign [OF a], simp)
    then have s1: "sumValues d1 cs m Forecast = Num s"
      using sum Forecast by (simp add: sumValues_target_values)
    have v1: "list_all (\<lambda>c. c < length d1) cs" using valid len1 by simp
    show ?thesis
      using normalizeValuesForMonth_target [OF dist ne v1 s1 nz b] Forecast by simp
  qed
qed

text \<open>A loop in which one step does the work and no other step touches what it did.\<close>

lemma foldE_once_inv:
  assumes run: "foldE f xs s = Inr s'" and x: "x \<in> set xs" and d: "distinct xs"
    and inv: "Inv s" and start: "view s = start_view"
    and step: "\<And>y t t'. y \<in> set xs \<Longrightarrow> f y t = Inr t' \<Longrightarrow> Inv t \<Longrightarrow> Inv t'"
    and foreign: "\<And>y t t'. y \<in> set xs \<Longrightarrow> y \<noteq> x \<Longrightarrow> f y t = Inr t' \<Longrightarrow> Inv t \<Longrightarrow> view t' = view t"
    and target: "\<And>t t'. f x t = Inr t' \<Longrightarrow> Inv t \<Longrightarrow> view t = start_view \<Longrightarrow> Q (view t')"
  shows "Q (view s')"
  using run x d inv start step foreign
proof (induction xs arbitrary: s)
  case Nil
  then show ?case by simp
next
  case (Cons y ys)
  from Cons.prems(1) obtain t where t: "f y s = Inr t" and rest: "foldE f ys t = Inr s'"
    by (auto split: sum.splits)
  have it: "Inv t" using Cons.prems(6) [of y s t] t Cons.prems(4) by simp
  have st: "Inv u'" if "z \<in> set ys" "f z u = Inr u'" "Inv u" for z u u'
    using Cons.prems(6) [of z u u'] that by simp
  show ?case
  proof (cases "y = x")
    case True
    have q: "Q (view t)" using target [of s t] t True Cons.prems(4,5) by simp
    have notin: "x \<notin> set ys" using Cons.prems(3) True by simp
    have "Inv s' \<and> view s' = view t"
    proof (rule foldE_invariant [OF rest, where P = "\<lambda>u. Inv u \<and> view u = view t"])
      show "Inv t \<and> view t = view t" using it by simp
    next
      fix z u u'
      assume z: "z \<in> set ys" and fu: "f z u = Inr u'" and au: "Inv u \<and> view u = view t"
      have "z \<noteq> x" using z notin by auto
      then have "view u' = view u" using Cons.prems(7) [of z u u'] z fu au by simp
      then show "Inv u' \<and> view u' = view t" using au st [OF z fu] by simp
    qed
    then show ?thesis using q by simp
  next
    case False
    have at: "view t = start_view" using Cons.prems(7) [of y s t] False t Cons.prems(4,5) by simp
    have xin: "x \<in> set ys" using Cons.prems(2) False by simp
    have dist: "distinct ys" using Cons.prems(3) by simp
    have fr: "view u' = view u" if "z \<in> set ys" "z \<noteq> x" "f z u = Inr u'" "Inv u" for z u u'
      using Cons.prems(7) [of z u u'] that by simp
    show ?thesis by (rule Cons.IH [OF rest xin dist it at st fr])
  qed
qed

lemma normalizeMonth_length:
  "normalizeMonth cs sumC m d = Inr d' \<Longrightarrow> length d' = length d"
  using normalizeMonth_map_invariant [of path cs sumC m d d'] by (metis length_map path_set_value)

lemma normalizeGroup_length:
  "normalizeGroup ms sumC g d = Inr d' \<Longrightarrow> length d' = length d"
  using normalizeGroup_map_invariant [of path ms sumC g d d'] by (metis length_map path_set_value)

lemma normalizeGroup_target:
  assumes dist: "distinct cs" and ne: "cs \<noteq> []" and valid: "list_all (\<lambda>c. c < length d) cs"
    and sum: "sumValues d cs m vt = Num s" and nz: "s \<noteq> 0"
    and ms: "distinct ms" and m: "m \<in> set ms"
    and res: "normalizeGroup ms sumC (k, cs) d = Inr d'"
  shows "sumValues d' cs m vt = Num sumC"
proof -
  have run: "foldE (normalizeMonth cs sumC) ms d = Inr d'"
    using res by (simp add: normalizeGroup_def)
  have "foldl js_add (Num 0) (target_values d' cs m vt) = Num sumC"
  proof (rule foldE_once_inv [OF run m ms, where Inv = "\<lambda>u. length u = length d"
        and view = "\<lambda>u. target_values u cs m vt" and start_view = "target_values d cs m vt"
        and Q = "\<lambda>a. foldl js_add (Num 0) a = Num sumC"])
    show "length d = length d" by simp
    show "target_values d cs m vt = target_values d cs m vt" by simp
  next
    fix m' t t'
    assume "normalizeMonth cs sumC m' t = Inr t'" and "length t = length d"
    then show "length t' = length d" using normalizeMonth_length by simp
  next
    fix m' t t'
    assume "m' \<noteq> m" and "normalizeMonth cs sumC m' t = Inr t'"
    then show "target_values t' cs m vt = target_values t cs m vt"
      using normalizeMonth_foreign [of cs sumC m' t t' cs m vt] by simp
  next
    fix t t'
    assume r: "normalizeMonth cs sumC m t = Inr t'" and len: "length t = length d"
      and tv: "target_values t cs m vt = target_values d cs m vt"
    have s: "sumValues t cs m vt = Num s" using sum tv by (simp add: sumValues_target_values)
    have v: "list_all (\<lambda>c. c < length t) cs" using valid len by simp
    have "sumValues t' cs m vt = Num sumC"
      by (rule normalizeMonth_target [OF dist ne v s nz r])
    then show "foldl js_add (Num 0) (target_values t' cs m vt) = Num sumC"
      by (simp add: sumValues_target_values)
  qed
  then show ?thesis by (simp add: sumValues_target_values)
qed

lemma groups_distinct_disjoint:
  assumes g: "groupEntries d level = Inr gs" and kc: "(k, cs) \<in> set gs"
  shows "distinct gs \<and> (\<forall>ga\<in>set gs. ga \<noteq> (k, cs) \<longrightarrow> set (snd ga) \<inter> set cs = {})"
proof (cases "level = 1")
  case True
  then have "gs = [(''root'', entriesAtLevel d level)]" using g by (simp add: groupEntries_def)
  then show ?thesis using kc by auto
next
  case False
  note deep = groupEntries_deeper [OF g False]
  have dk: "distinct (map fst gs)" using deep by blast
  have mem: "c = filter (\<lambda>i. parentPath (d ! i) = k') (entriesAtLevel d level)"
    if "(k', c) \<in> set gs" for k' c
    using deep that by blast
  have "set (snd ga) \<inter> set cs = {}" if ga: "ga \<in> set gs" and neq: "ga \<noteq> (k, cs)" for ga
  proof -
    obtain k' c where kc': "ga = (k', c)" by (cases ga)
    have "k' \<noteq> k"
    proof
      assume "k' = k"
      then have "c = cs" using mem [of k' c] mem [OF kc] ga kc' by simp
      then show False using neq kc' \<open>k' = k\<close> by simp
    qed
    then show ?thesis using mem [of k' c] mem [OF kc] ga kc' by auto
  qed
  then show ?thesis using dk by (auto simp: distinct_map)
qed

lemma normalizeLevel_target:
  assumes paths: "map path d = all_paths lv"
    and lev: "1 \<le> level" "level \<le> length lv" and nonempty: "[] \<notin> set lv"
    and g: "groupEntries d level = Inr gs" and kc: "(k, cs) \<in> set gs"
    and sum: "sumValues d cs m vt = Num s" and nz: "s \<noteq> 0"
    and ms: "distinct ms" and m: "m \<in> set ms"
    and res: "normalizeLevel ms sumC level d = Inr d'"
  shows "sumValues d' cs m vt = Num sumC"
proof -
  note order = group_members_order [OF paths lev nonempty g kc]
  have dist: "distinct cs" and ne: "cs \<noteq> []" and valid: "list_all (\<lambda>c. c < length d) cs"
    using order by blast+
  have run: "foldE (normalizeGroup ms sumC) gs d = Inr d'"
    using res g by (simp add: normalizeLevel_def)
  note dd = groups_distinct_disjoint [OF g kc]
  have dgs: "distinct gs" using dd by blast
  have "foldl js_add (Num 0) (target_values d' cs m vt) = Num sumC"
  proof (rule foldE_once_inv [OF run kc dgs, where Inv = "\<lambda>u. length u = length d"
        and view = "\<lambda>u. target_values u cs m vt" and start_view = "target_values d cs m vt"
        and Q = "\<lambda>a. foldl js_add (Num 0) a = Num sumC"])
    show "length d = length d" by simp
    show "target_values d cs m vt = target_values d cs m vt" by simp
  next
    fix ga t t'
    assume "normalizeGroup ms sumC ga t = Inr t'" and "length t = length d"
    then show "length t' = length d" using normalizeGroup_length by simp
  next
    fix ga t t'
    assume "ga \<in> set gs" and "ga \<noteq> (k, cs)" and r: "normalizeGroup ms sumC ga t = Inr t'"
    then have "set (snd ga) \<inter> set cs = {}" using dd by blast
    then show "target_values t' cs m vt = target_values t cs m vt"
      by (rule normalizeGroup_foreign [OF r])
  next
    fix t t'
    assume r: "normalizeGroup ms sumC (k, cs) t = Inr t'" and len: "length t = length d"
      and tv: "target_values t cs m vt = target_values d cs m vt"
    have s: "sumValues t cs m vt = Num s" using sum tv by (simp add: sumValues_target_values)
    have v: "list_all (\<lambda>c. c < length t) cs" using valid len by simp
    have "sumValues t' cs m vt = Num sumC"
      by (rule normalizeGroup_target [OF dist ne v s nz ms m r])
    then show "foldl js_add (Num 0) (target_values t' cs m vt) = Num sumC"
      by (simp add: sumValues_target_values)
  qed
  then show ?thesis by (simp add: sumValues_target_values)
qed

lemma normalizeAllLevelValues_target:
  assumes paths: "map path raw = all_paths lv"
    and lev: "1 \<le> level" "level \<le> length lv" and nonempty: "[] \<notin> set lv"
    and g: "groupEntries raw level = Inr gs" and kc: "(k, cs) \<in> set gs"
    and sum: "sumValues raw cs m vt = Num s" and nz: "s \<noteq> 0"
    and ms: "distinct ms" and m: "m \<in> set ms"
    and res: "normalizeAllLevelValues raw lv ms sumC = Inr es"
  shows "sumValues es cs m vt = Num sumC"
proof -
  have run: "foldE (normalizeLevel ms sumC) [1..<Suc (length lv)] raw = Inr es"
    using res by (simp add: normalizeAllLevelValues_def)
  have lin: "level \<in> set [1..<Suc (length lv)]" using lev by auto
  have sub: "set cs \<subseteq> set (entriesAtLevel raw level)"
    using group_members_level [OF g kc] by simp
  have "foldl js_add (Num 0) (target_values es cs m vt) = Num sumC"
  proof (rule foldE_once_inv [OF run lin, where Inv = "\<lambda>u. map path u = all_paths lv"
        and view = "\<lambda>u. target_values u cs m vt" and start_view = "target_values raw cs m vt"
        and Q = "\<lambda>a. foldl js_add (Num 0) a = Num sumC"])
    show "distinct [1..<Suc (length lv)]" by simp
    show "map path raw = all_paths lv" by (rule paths)
    show "target_values raw cs m vt = target_values raw cs m vt" by simp
  next
    fix level' and t t' :: "entry list"
    assume r: "normalizeLevel ms sumC level' t = Inr t'" and p: "map path t = all_paths lv"
    have "map path t' = map path t" by (rule normalizeLevel_map_invariant [OF _ r]) simp
    then show "map path t' = all_paths lv" using p by simp
  next
    fix level' and t t' :: "entry list"
    assume other: "level' \<noteq> level" and r: "normalizeLevel ms sumC level' t = Inr t'"
      and p: "map path t = all_paths lv"
    have "entriesAtLevel t level = entriesAtLevel raw level"
      by (rule entriesAtLevel_cong) (simp add: p paths)
    then have "set cs \<subseteq> set (entriesAtLevel t level)" using sub by simp
    then show "target_values t' cs m vt = target_values t cs m vt"
      by (rule normalizeLevel_foreign [OF r other])
  next
    fix t t' :: "entry list"
    assume r: "normalizeLevel ms sumC level t = Inr t'" and p: "map path t = all_paths lv"
      and tv: "target_values t cs m vt = target_values raw cs m vt"
    have gt: "groupEntries t level = Inr gs"
      using groupEntries_cong [of t raw level] p paths g by simp
    have s: "sumValues t cs m vt = Num s" using sum tv by (simp add: sumValues_target_values)
    have "sumValues t' cs m vt = Num sumC"
      by (rule normalizeLevel_target [OF p lev nonempty gt kc s nz ms m r])
    then show "foldl js_add (Num 0) (target_values t' cs m vt) = Num sumC"
      by (simp add: sumValues_target_values)
  qed
  then show ?thesis by (simp add: sumValues_target_values)
qed

lemma rounded_ge_one: "1 / 2 \<le> x \<Longrightarrow> 1 \<le> rounded x"
proof -
  assume "1 / 2 \<le> x"
  then have "(1::rat) \<le> x + 1 / 2" by simp
  then have "1 \<le> \<lfloor>x + 1 / 2\<rfloor>" by (simp add: le_floor_iff)
  then show ?thesis by (simp add: rounded_def)
qed

lemma sampled_positive:
  assumes rnd: "\<forall>i. 0 \<le> rnd i \<and> rnd i < 1"
    and lo: "rmin ranges = of_int lo" and hi: "rmax ranges = of_int hi"
    and pos: "1 \<le> lo" and le: "lo \<le> hi"
    and s: "sampled rnd ranges inclRel v m i"
  shows "\<exists>a b. plan v m = Some (Num a) \<and> 1 \<le> a \<and> forecast v m = Some (Num b) \<and> 1 \<le> b"
proof -
  from sampled_range [OF rnd lo hi le s] obtain k w where
    p: "plan v m = Some (Num (of_int k))" and k: "lo \<le> k"
    and w: "- (1 / 20) \<le> w"
    and f: "forecast v m = Some (js_round (Num (of_int k * (1 + w))))"
    by blast
  have k1: "(1::rat) \<le> of_int k" using k pos by simp
  have "(1::rat) * (19 / 20) \<le> of_int k * (1 + w)"
    by (rule mult_mono) (use k1 w in simp_all)
  then have "1 / 2 \<le> of_int k * (1 + w)" by simp
  then have "1 \<le> rounded (of_int k * (1 + w))" by (rule rounded_ge_one)
  then show ?thesis using p f k1 by simp
qed

lemma raw_value_positive:
  assumes rnd: "\<forall>i. 0 \<le> rnd i \<and> rnd i < 1"
    and lo: "rmin ranges = of_int lo" and hi: "rmax ranges = of_int hi"
    and pos: "1 \<le> lo" and le: "lo \<le> hi"
    and gen: "generateEntriesForAllLevels rnd lv ms ranges inclRel ([], n) = Inr (raw, n')"
    and e: "e \<in> set raw" and m: "m \<in> set ms"
  shows "\<exists>a. get_value e vt m = Num a \<and> 1 \<le> a"
proof -
  have "\<forall>e\<in>set (fst (raw, n')). \<exists>i. sampled rnd ranges inclRel (vals e) m i"
    by (rule generateEntriesForAllLevels_entries [OF gen]) (simp add: generateValues_sampled [OF m])
  then obtain i where s: "sampled rnd ranges inclRel (vals e) m i" using e by auto
  from sampled_positive [OF rnd lo hi pos le s] show ?thesis
    by (cases vt) (auto simp: get_value_def)
qed

lemma sum_list_ge_length:
  fixes f :: "'a \<Rightarrow> rat"
  shows "\<forall>x\<in>set xs. 1 \<le> f x \<Longrightarrow> of_nat (length xs) \<le> sum_list (map f xs)"
  by (induction xs) (simp_all add: add_mono)

lemma sumValues_positive:
  assumes vals: "\<forall>c\<in>set cs. \<exists>a. get_value (d ! c) vt m = Num a \<and> 1 \<le> a" and ne: "cs \<noteq> []"
  shows "\<exists>s. sumValues d cs m vt = Num s \<and> s \<noteq> 0"
proof -
  let ?g = "\<lambda>c. num_of (get_value (d ! c) vt m)"
  have eq: "get_value (d ! c) vt m = Num (?g c)" and ge: "1 \<le> ?g c" if "c \<in> set cs" for c
    using vals that by auto
  have "list_all (\<lambda>c. get_value (d ! c) vt m = Num (?g c)) cs"
    using eq by (simp add: list_all_iff)
  then have s: "sumValues d cs m vt = Num (sum_list (map ?g cs))"
    by (rule sumValues_finite_values)
  have "of_nat (length cs) \<le> sum_list (map ?g cs)"
    by (rule sum_list_ge_length) (use ge in simp)
  moreover have "(0::rat) < of_nat (length cs)" using ne by simp
  ultimately have "sum_list (map ?g cs) \<noteq> 0" by linarith
  then show ?thesis using s by blast
qed

text \<open>
  The sum invariant where the samples are positive: integer bounds with \<open>1 \<le> min \<le> max\<close>,
  months without a repetition, draws in \<open>[0, 1)\<close>. In every collection that
  \<^verbatim>\<open>generateTreeData\<close> returns, every group of every level sums to the constraint, for
  every requested month and for both series.
\<close>

lemma sum_invariant:
  assumes rnd: "\<forall>i. 0 \<le> rnd i \<and> rnd i < 1"
    and lo: "rmin (valueRanges cfg) = of_int lo" and hi: "rmax (valueRanges cfg) = of_int hi"
    and pos: "1 \<le> lo" and le: "lo \<le> hi"
    and ms: "distinct (months cfg)"
    and res: "fst (generateTreeData rnd cfg n) = Inr es"
    and lev: "1 \<le> level" "level \<le> length (levelValues cfg)"
    and g: "groupEntries es level = Inr gs" and kc: "(k, cs) \<in> set gs"
    and m: "m \<in> set (months cfg)"
  shows "sumValues es cs m vt = Num (sumConstraint cfg)"
proof -
  have ne: "levelValues cfg \<noteq> []" and nb: "\<not> (\<exists>level\<in>set (levelValues cfg). level = [])"
    using res by (auto simp: generateTreeData_def split: if_splits)
  have nonempty: "[] \<notin> set (levelValues cfg)" using nb by auto
  obtain raw n' where gen: "generateEntriesForAllLevels rnd (levelValues cfg) (months cfg) (valueRanges cfg)
                      (includeRel cfg) ([], n) = Inr (raw, n')"
    using generateEntriesForAllLevels_Inr [OF ne] by (metis surj_pair)
  have "fst (generateTreeData rnd cfg n) =
          normalizeAllLevelValues raw (levelValues cfg) (months cfg) (sumConstraint cfg)"
    unfolding generateTreeData_def using ne nb gen by simp
  then have norm: "normalizeAllLevelValues raw (levelValues cfg) (months cfg) (sumConstraint cfg) = Inr es"
    using res by simp
  have paths: "map path raw = all_paths (levelValues cfg)"
    using generateEntriesForAllLevels_paths [OF gen] by simp
  have "map path es = map path raw" by (rule normalizeAllLevelValues_paths [OF norm])
  then have graw: "groupEntries raw level = Inr gs"
    using groupEntries_cong [of raw es level] g by simp
  note order = group_members_order [OF paths lev nonempty graw kc]
  have cne: "cs \<noteq> []" and valid: "list_all (\<lambda>c. c < length raw) cs"
    using order by blast+
  have "\<exists>a. get_value (raw ! c) vt m = Num a \<and> 1 \<le> a" if "c \<in> set cs" for c
  proof -
    have "raw ! c \<in> set raw" using valid that by (simp add: list_all_iff)
    then show ?thesis by (rule raw_value_positive [OF rnd lo hi pos le gen _ m])
  qed
  then obtain s where sum: "sumValues raw cs m vt = Num s" and nz: "s \<noteq> 0"
    using sumValues_positive [of cs raw vt m] cne by blast
  show ?thesis
    by (rule normalizeAllLevelValues_target [OF paths lev nonempty graw kc sum nz ms m norm])
qed

section \<open>The claims\<close>

text \<open>
  Claim C1 (sum invariant). The header of the program promises that the entries of every
  level sum to the constraint. With the sampling range \<open>{min: 0, max: 0}\<close> every raw
  \<^verbatim>\<open>plan\<close> and \<^verbatim>\<open>forecast\<close> is \<open>0\<close>, whatever the draws: the sum of the group is \<open>0\<close>, the
  scale factor \<^verbatim>\<open>100 / 0\<close> is \<^verbatim>\<open>Infinity\<close>, and every value of the returned collection is
  \<^verbatim>\<open>NaN\<close>. The sum over the one group of depth 1 is \<^verbatim>\<open>NaN\<close>, not \<open>100\<close>. Where every sample
  is positive the invariant holds for every group, month and series of the returned
  collection (lemma \<open>sum_invariant\<close>); what breaks it is the division by a sum of zero,
  which nothing guards (lemma \<open>zero_sum_stores_non_finite\<close>).
\<close>

theorem C1_zero_sum_group:
  "\<not> isl (fst (generateTreeData (\<lambda>i. 1 / 2) zero_range_config 0)) \<and>
   map (\<lambda>e. (path e, get_value e Plan ''2025-01'', get_value e Forecast ''2025-01''))
     (projr (fst (generateTreeData (\<lambda>i. 1 / 2) zero_range_config 0))) =
     [([''A''], NaN, NaN), ([''B''], NaN, NaN)] \<and>
   sumValues (projr (fst (generateTreeData (\<lambda>i. 1 / 2) zero_range_config 0))) [0, 1] ''2025-01'' Plan = NaN"
  by code_simp

text \<open>
  Claim C2 (scenario C). Three siblings all with raw \<^verbatim>\<open>plan = 0\<close>: the sum of the group is
  zero, the normalization throws nothing, and it stores \<^verbatim>\<open>NaN\<close> in every member.
\<close>

theorem C2_scenario_C:
  "sumValues (siblings 0) [0, 1, 2] ''2025-01'' Plan = Num 0 \<and>
   \<not> isl (normalizeValuesForMonth (siblings 0) [0, 1, 2] ''2025-01'' Plan 100) \<and>
   map (\<lambda>e. get_value e Plan ''2025-01'')
     (projr (normalizeValuesForMonth (siblings 0) [0, 1, 2] ''2025-01'' Plan 100)) = [NaN, NaN, NaN]"
  by code_simp



text \<open>
  Claim C4 (validation). When \<^verbatim>\<open>levelValues\<close> is empty or holds an empty level,
  \<^verbatim>\<open>generateTreeData\<close> throws the validation error: the same error whatever the random
  source holds, no draw made (the draw counter is the one it was called with) and no
  collection returned. For every other input no validation error is thrown.
\<close>

theorem C4_validation:
  "((levelValues cfg = [] \<or> [] \<in> set (levelValues cfg)) \<longrightarrow>
      (\<exists>msg. \<forall>rnd. generateTreeData rnd cfg n = (Inl (Error msg), n))) \<and>
   (\<not> (levelValues cfg = [] \<or> [] \<in> set (levelValues cfg)) \<longrightarrow>
      (\<forall>rnd msg. fst (generateTreeData rnd cfg n) \<noteq> Inl (Error msg)))"
proof (intro conjI impI)
  assume inv: "levelValues cfg = [] \<or> [] \<in> set (levelValues cfg)"
  show "\<exists>msg. \<forall>rnd. generateTreeData rnd cfg n = (Inl (Error msg), n)"
  proof (cases "levelValues cfg = []")
    case True
    then show ?thesis by (simp add: generateTreeData_def)
  next
    case False
    then have "\<exists>level\<in>set (levelValues cfg). level = []" using inv by simp
    then show ?thesis using False by (simp add: generateTreeData_def)
  qed
next
  assume valid: "\<not> (levelValues cfg = [] \<or> [] \<in> set (levelValues cfg))"
  show "\<forall>rnd msg. fst (generateTreeData rnd cfg n) \<noteq> Inl (Error msg)"
  proof (intro allI notI)
    fix rnd msg
    assume err: "fst (generateTreeData rnd cfg n) = Inl (Error msg)"
    obtain st where st: "generateEntriesForAllLevels rnd (levelValues cfg) (months cfg) (valueRanges cfg)
                      (includeRel cfg) ([], n) = Inr st"
      using generateEntriesForAllLevels_Inr [of "levelValues cfg"] valid by blast
    have ne: "levelValues cfg \<noteq> []" and nb: "\<not> (\<exists>level\<in>set (levelValues cfg). level = [])"
      using valid by simp_all
    have "fst (generateTreeData rnd cfg n) =
             normalizeAllLevelValues (fst st) (levelValues cfg) (months cfg) (sumConstraint cfg)"
      unfolding generateTreeData_def using ne nb st by simp
    then have "normalizeAllLevelValues (fst st) (levelValues cfg) (months cfg) (sumConstraint cfg) =
                 Inl (Error msg)"
      using err by simp
    from normalizeAllLevelValues_error [OF this] show False by simp
  qed
qed

theorem C4_validation_witness:
  "generateTreeData (\<lambda>i. 1 / 2) (one_level_config\<lparr>levelValues := []\<rparr>) 0 =
     (Inl (Error ''levelValues must be a non-empty array of arrays''), 0) \<and>
   generateTreeData (\<lambda>i. 1 / 2) (one_level_config\<lparr>levelValues := [[''A''], []]\<rparr>) 0 =
     (Inl (Error ''Each level must be a non-empty array of values''), 0) \<and>
   fst (generateTreeData (\<lambda>i. 1 / 2) one_level_config 0) \<noteq>
     Inl (Error ''Each level must be a non-empty array of values'')"
  using C4_validation [of one_level_config 0] C4_validation [of "one_level_config\<lparr>levelValues := []\<rparr>" 0]
  by (simp add: generateTreeData_def one_level_config_def)



text \<open>
  Claim C6 (\<^verbatim>\<open>rel\<close> is untouched). When \<^verbatim>\<open>includeRel\<close> is true and the draws lie in
  \<open>[0, 1)\<close>, every entry of the returned collection holds the \<^verbatim>\<open>rel\<close> object it was
  created with (the normalization has not written to it), and its value for every
  requested month is an integer from \<open>1\<close> to \<open>30\<close>.
\<close>

theorem C6_rel_untouched:
  assumes rnd: "\<forall>i. 0 \<le> rnd i \<and> rnd i < 1"
    and inc: "includeRel cfg"
    and res: "fst (generateTreeData rnd cfg n) = Inr es"
  shows "\<exists>raw n'. generateEntriesForAllLevels rnd (levelValues cfg) (months cfg) (valueRanges cfg)
                      (includeRel cfg) ([], n) = Inr (raw, n') \<and>
           map (\<lambda>e. rel (vals e)) es = map (\<lambda>e. rel (vals e)) raw \<and>
           (\<forall>e\<in>set es. \<forall>m\<in>set (months cfg).
              \<exists>r q. rel (vals e) = Some r \<and> r m = Some (Num (of_int q)) \<and> 1 \<le> q \<and> q \<le> 30)"
proof -
  have ne: "levelValues cfg \<noteq> []" and nb: "\<not> (\<exists>level\<in>set (levelValues cfg). level = [])"
    using res by (auto simp: generateTreeData_def split: if_splits)
  obtain raw n' where gen: "generateEntriesForAllLevels rnd (levelValues cfg) (months cfg) (valueRanges cfg)
                      (includeRel cfg) ([], n) = Inr (raw, n')"
    using generateEntriesForAllLevels_Inr [OF ne] by (metis surj_pair)
  have "fst (generateTreeData rnd cfg n) =
          normalizeAllLevelValues raw (levelValues cfg) (months cfg) (sumConstraint cfg)"
    unfolding generateTreeData_def using ne nb gen by simp
  then have norm: "normalizeAllLevelValues raw (levelValues cfg) (months cfg) (sumConstraint cfg) = Inr es"
    using res by simp
  have same: "map (\<lambda>e. rel (vals e)) es = map (\<lambda>e. rel (vals e)) raw"
    by (rule normalizeAllLevelValues_rel [OF norm])
  have rawrel: "\<forall>e\<in>set (fst (raw, n')). \<forall>m\<in>set (months cfg).
                  \<exists>i. sampled rnd (valueRanges cfg) (includeRel cfg) (vals e) m i"
    by (rule generateEntriesForAllLevels_entries [OF gen]) (simp add: generateValues_sampled)
  have "\<exists>r q. rel (vals e) = Some r \<and> r m = Some (Num (of_int q)) \<and> 1 \<le> q \<and> q \<le> 30"
    if e: "e \<in> set es" and m: "m \<in> set (months cfg)" for e m
  proof -
    have "rel (vals e) \<in> set (map (\<lambda>e. rel (vals e)) raw)" using e same by (metis image_eqI set_map)
    then obtain e' where e': "e' \<in> set raw" and eq: "rel (vals e') = rel (vals e)" by auto
    obtain i where "sampled rnd (valueRanges cfg) True (vals e') m i"
      using rawrel e' m inc by auto
    from sampled_rel [OF rnd this] show ?thesis unfolding eq by blast
  qed
  then show ?thesis using gen same by blast
qed

theorem C6_rel_untouched_witness:
  "(\<forall>i::nat. (0::rat) \<le> 1 / 2 \<and> (1 / 2 :: rat) < 1) \<and> includeRel rel_config \<and>
   \<not> isl (fst (generateTreeData (\<lambda>i. 1 / 2) rel_config 0)) \<and>
   (\<exists>raw n'. generateEntriesForAllLevels (\<lambda>i. 1 / 2) (levelValues rel_config) (months rel_config)
                 (valueRanges rel_config) (includeRel rel_config) ([], 0) = Inr (raw, n') \<and>
      map (\<lambda>e. rel (vals e)) (projr (fst (generateTreeData (\<lambda>i. 1 / 2) rel_config 0))) =
        map (\<lambda>e. rel (vals e)) raw) \<and>
   map (\<lambda>e. map_option (\<lambda>r. r ''2025-01'') (rel (vals e)))
     (projr (fst (generateTreeData (\<lambda>i. 1 / 2) rel_config 0))) = [Some (Some (Num 16)), Some (Some (Num 16))]"
proof -
  let ?rnd = "\<lambda>i::nat. (1 / 2 :: rat)"
  have rnd: "\<forall>i. 0 \<le> ?rnd i \<and> ?rnd i < 1" by simp
  have inc: "includeRel rel_config" by (simp add: rel_config_def)
  have ok: "\<not> isl (fst (generateTreeData ?rnd rel_config 0))" by code_simp
  then have res: "fst (generateTreeData ?rnd rel_config 0) = Inr (projr (fst (generateTreeData ?rnd rel_config 0)))"
    by simp
  have v: "map (\<lambda>e. map_option (\<lambda>r. r ''2025-01'') (rel (vals e)))
     (projr (fst (generateTreeData ?rnd rel_config 0))) = [Some (Some (Num 16)), Some (Some (Num 16))]"
    by code_simp
  from C6_rel_untouched [OF rnd inc res] obtain raw n' where
    g: "generateEntriesForAllLevels ?rnd (levelValues rel_config) (months rel_config)
          (valueRanges rel_config) (includeRel rel_config) ([], 0) = Inr (raw, n')"
    and r: "map (\<lambda>e. rel (vals e)) (projr (fst (generateTreeData ?rnd rel_config 0))) =
              map (\<lambda>e. rel (vals e)) raw"
    by blast
  have "\<exists>raw n'. generateEntriesForAllLevels ?rnd (levelValues rel_config) (months rel_config)
                 (valueRanges rel_config) (includeRel rel_config) ([], 0) = Inr (raw, n') \<and>
      map (\<lambda>e. rel (vals e)) (projr (fst (generateTreeData ?rnd rel_config 0))) =
        map (\<lambda>e. rel (vals e)) raw"
    using g r by blast
  then show ?thesis
    using rnd inc ok v by simp
qed




text \<open>
  Claim C8 (idempotence), amended to a nonzero constraint. A group whose values for the
  series and the period are integers that sum to the constraint, the constraint not being
  zero: the scale factor is \<open>1\<close>, the rescaling leaves the store as it is, the residual is
  \<open>0\<close>, and the normalization returns the store unchanged.
\<close>

theorem C8_idempotent:
  assumes ints: "list_all (\<lambda>c. \<exists>k::int. get_value (data ! c) vt m = Num (of_int k)) cs"
    and sum: "sumValues data cs m vt = Num sumC"
    and nz: "sumC \<noteq> 0"
  shows "js_div (Num sumC) (sumValues data cs m vt) = Num 1 \<and>
         scaleValues data cs m vt (Num 1) = data \<and>
         js_sub (Num sumC) (sumValues (scaleValues data cs m vt (Num 1)) cs m vt) = Num 0 \<and>
         normalizeValuesForMonth data cs m vt sumC = Inr data"
proof -
  have sf: "js_div (Num sumC) (sumValues data cs m vt) = Num 1"
    using sum nz by simp
  have sc: "scaleValues data cs m vt (Num 1) = data"
    by (rule scaleValues_one [OF ints])
  have res: "js_sub (Num sumC) (sumValues data cs m vt) = Num 0"
    using sum by (simp add: js_sub_def)
  have "normalizeValuesForMonth data cs m vt sumC = Inr data"
    unfolding normalizeValuesForMonth_def Let_def sf sc using sum by simp
  then show ?thesis using sf sc res by simp
qed

theorem C8_idempotent_witness:
  "sumValues (siblings 33) [0, 1, 2] ''2025-01'' Plan = Num 99 \<and>
   js_div (Num 99) (sumValues (siblings 33) [0, 1, 2] ''2025-01'' Plan) = Num 1 \<and>
   normalizeValuesForMonth (siblings 33) [0, 1, 2] ''2025-01'' Plan 99 = Inr (siblings 33)"
proof -
  have s: "sumValues (siblings 33) [0, 1, 2] ''2025-01'' Plan = Num 99"
    by code_simp
  have "get_value (siblings 33 ! c) Plan ''2025-01'' = Num (of_int 33)" if "c \<in> set [0, 1, 2]" for c
    using that by (auto simp: siblings_def get_value_def)
  then have i: "list_all (\<lambda>c. \<exists>k::int. get_value (siblings 33 ! c) Plan ''2025-01'' = Num (of_int k)) [0, 1, 2]"
    unfolding list_all_iff by blast
  show ?thesis
    using C8_idempotent [OF i s] s by simp
qed

text \<open>
  With the constraint \<open>0\<close> the claim fails. A first normalization of three siblings with
  raw value \<open>33\<close> gives \<open>0, 0, 0\<close>, which sum to the constraint; normalizing that group
  again divides \<open>0\<close> by \<open>0\<close> and stores \<^verbatim>\<open>NaN\<close> in every member.
\<close>

theorem C8_zero_constraint_counterexample:
  "\<not> isl (normalizeValuesForMonth (siblings 33) [0, 1, 2] ''2025-01'' Plan 0) \<and>
   map (\<lambda>e. get_value e Plan ''2025-01'')
     (projr (normalizeValuesForMonth (siblings 33) [0, 1, 2] ''2025-01'' Plan 0)) = [Num 0, Num 0, Num 0] \<and>
   sumValues (projr (normalizeValuesForMonth (siblings 33) [0, 1, 2] ''2025-01'' Plan 0)) [0, 1, 2]
     ''2025-01'' Plan = Num 0 \<and>
   js_div (Num 0) (Num 0) = NaN \<and>
   map (\<lambda>e. get_value e Plan ''2025-01'')
     (projr (normalizeValuesForMonth
        (projr (normalizeValuesForMonth (siblings 33) [0, 1, 2] ''2025-01'' Plan 0))
        [0, 1, 2] ''2025-01'' Plan 0)) = [NaN, NaN, NaN]"
  by code_simp

text \<open>
  Claim C9 (scenario B). Three siblings of depth 1 with raw \<^verbatim>\<open>plan = 33\<close> and the
  constraint \<open>100\<close>: the group is the three entries in the order of the labels, the current
  sum is \<open>99\<close>, the scale factor is \<open>100/99\<close>, every member rounds to \<open>33\<close>, the sum after
  rounding is \<open>99\<close>, the residual is \<open>1\<close>, and the result is \<open>33, 33, 34\<close> with sum \<open>100\<close>.
\<close>

theorem C9_scenario_B:
  "groupEntries (siblings 33) 1 = Inr [(''root'', [0, 1, 2])] \<and>
   sumValues (siblings 33) [0, 1, 2] ''2025-01'' Plan = Num 99 \<and>
   js_div (Num 100) (Num 99) = Num (100 / 99) \<and>
   map (\<lambda>e. get_value e Plan ''2025-01'')
     (scaleValues (siblings 33) [0, 1, 2] ''2025-01'' Plan (Num (100 / 99))) = [Num 33, Num 33, Num 33] \<and>
   sumValues (scaleValues (siblings 33) [0, 1, 2] ''2025-01'' Plan (Num (100 / 99))) [0, 1, 2] ''2025-01'' Plan
     = Num 99 \<and>
   js_sub (Num 100) (Num 99) = Num 1 \<and>
   \<not> isl (normalizeValuesForMonth (siblings 33) [0, 1, 2] ''2025-01'' Plan 100) \<and>
   map (\<lambda>e. get_value e Plan ''2025-01'')
     (projr (normalizeValuesForMonth (siblings 33) [0, 1, 2] ''2025-01'' Plan 100)) = [Num 33, Num 33, Num 34] \<and>
   sumValues (projr (normalizeValuesForMonth (siblings 33) [0, 1, 2] ''2025-01'' Plan 100)) [0, 1, 2]
     ''2025-01'' Plan = Num 100"
  by code_simp





end
